theory Spec2Isabelle
  imports Complex_Main "HOL-Library.Multiset"
begin

section \<open>The 4-point planar fit of src/App.jsx\<close>

text \<open>
  This theory embeds the four-point fit of \<^verbatim>\<open>src/src/App.jsx\<close>: \<^verbatim>\<open>orderQuad\<close>,
  \<^verbatim>\<open>solveAffine\<close> (with its local helpers \<^verbatim>\<open>AT\<close>, \<^verbatim>\<open>mul\<close>, \<^verbatim>\<open>inv\<close>),
  \<^verbatim>\<open>decomposeAffineToTRS\<close>, the click handler \<^verbatim>\<open>addPoint\<close> of
  \<^verbatim>\<open>FourPointFitOverlay\<close> and the orchestration \<^verbatim>\<open>applyFourPointFit\<close> of \<^verbatim>\<open>App\<close>.

  Numbers. A JavaScript number is an IEEE-754 double. Here it is a \<^typ>\<open>real\<close>: arithmetic
  is exact, there is no rounding, no NaN and no infinity. Where the source relies on a
  special value, the model writes the case out: \<^verbatim>\<open>Infinity\<close> as the starting value of
  \<^verbatim>\<open>best\<close> is \<open>None\<close>, and \<^verbatim>\<open>v || d\<close> on a number replaces \<open>0\<close> by \<open>d\<close>.
  Every theorem below is about this exact-arithmetic reading of the code, except those on
  \<open>orderQuad_rnd\<close>: a second embedding of \<^verbatim>\<open>orderQuad\<close> in which the result of every
  arithmetic operation is rounded, as the result of an operation on doubles is.

  Arrays. A JavaScript array is a list. Reading an index that is out of range gives
  \<^verbatim>\<open>undefined\<close>, modelled as \<open>None\<close>; reading a property of \<^verbatim>\<open>undefined\<close> raises a
  \<^verbatim>\<open>TypeError\<close>, modelled as \<open>Inl TypeError\<close>.
\<close>

subsection \<open>Data\<close>

text \<open>A point object \<^verbatim>\<open>{x, y}\<close>.\<close>

record point =
  px :: real
  py :: real

datatype js_error = TypeError

text \<open>\<^verbatim>\<open>xs[i]\<close>: \<^verbatim>\<open>undefined\<close> when \<open>i\<close> is out of range.\<close>

definition nth_opt :: "'a list \<Rightarrow> nat \<Rightarrow> 'a option" where
  "nth_opt xs i = (if i < length xs then Some (xs ! i) else None)"

text \<open>\<^verbatim>\<open>v || d\<close> for a number \<open>v\<close>: \<open>d\<close> when \<open>v\<close> is falsy, which for a real is \<open>v = 0\<close>.\<close>

definition or_num :: "real \<Rightarrow> real \<Rightarrow> real" where
  "or_num v d = (if v = 0 then d else v)"

text \<open>
  \<^verbatim>\<open>Math.atan2(y, x)\<close>, the angle in \<open>(-\<pi>, \<pi>]\<close> of the point \<open>(x, y)\<close>, with
  \<^verbatim>\<open>Math.atan2(0, 0) = 0\<close>; \<^verbatim>\<open>Math.hypot(a, b)\<close>.
\<close>

definition atan2 :: "real \<Rightarrow> real \<Rightarrow> real" where
  "atan2 v u =
     (if 0 < u then arctan (v / u)
      else if u < 0 then (if 0 \<le> v then arctan (v / u) + pi else arctan (v / u) - pi)
      else if 0 < v then pi / 2
      else if v < 0 then - (pi / 2)
      else 0)"

definition hypot :: "real \<Rightarrow> real \<Rightarrow> real" where
  "hypot u v = sqrt (u * u + v * v)"

subsection \<open>orderQuad\<close>

text \<open>
  \<^verbatim>\<open>
  function orderQuad(points) {
    const pts = points.slice();
    const cx = pts.reduce((s, p) => s + p.x, 0) / pts.length;
    const cy = pts.reduce((s, p) => s + p.y, 0) / pts.length;
    pts.sort((a, b) => Math.atan2(a.y - cy, a.x - cx) - Math.atan2(b.y - cy, b.x - cx));
    let start = 0, best = Infinity;
    pts.forEach((p, i) => { const v = p.x + p.y; if (v < best) { best = v; start = i; } });
    return [pts[start], pts[(start + 1) % 4], pts[(start + 2) % 4], pts[(start + 3) % 4]];
  }
  \<close>
  The elements of the array are read through \<open>get\<close>: the identity when the list holds the
  points themselves, a lookup in the object store when it holds references (see
  \<open>orderQuad_st\<close>). The comparator is the difference of two keys, so \<^verbatim>\<open>sort\<close>, which is
  stable, is the stable sort by that key: \<^const>\<open>sort_key\<close>.
\<close>

definition centroid_x :: "('a \<Rightarrow> point) \<Rightarrow> 'a list \<Rightarrow> real" where
  "centroid_x get pts = foldl (\<lambda>s p. s + px (get p)) 0 pts / real (length pts)"

definition centroid_y :: "('a \<Rightarrow> point) \<Rightarrow> 'a list \<Rightarrow> real" where
  "centroid_y get pts = foldl (\<lambda>s p. s + py (get p)) 0 pts / real (length pts)"

definition angle_key :: "real \<Rightarrow> real \<Rightarrow> point \<Rightarrow> real" where
  "angle_key cx cy p = atan2 (py p - cy) (px p - cx)"

text \<open>One round of the \<^verbatim>\<open>forEach\<close>: the state is \<open>(start, best)\<close>, \<open>None\<close> is \<^verbatim>\<open>Infinity\<close>.\<close>

definition best_step :: "nat \<times> real option \<Rightarrow> nat \<times> point \<Rightarrow> nat \<times> real option" where
  "best_step sb ip =
     (let v = px (snd ip) + py (snd ip)
      in if (case snd sb of None \<Rightarrow> True | Some b \<Rightarrow> v < b) then (fst ip, Some v) else sb)"

definition start_index :: "point list \<Rightarrow> nat" where
  "start_index pts = fst (foldl best_step (0, None) (enumerate 0 pts))"

text \<open>The array literal of the \<^verbatim>\<open>return\<close>.\<close>

definition pick4 :: "'a list \<Rightarrow> nat \<Rightarrow> 'a option list" where
  "pick4 pts start =
     [nth_opt pts start,
      nth_opt pts ((start + 1) mod 4),
      nth_opt pts ((start + 2) mod 4),
      nth_opt pts ((start + 3) mod 4)]"

definition orderQuad_on :: "('a \<Rightarrow> point) \<Rightarrow> 'a list \<Rightarrow> 'a option list" where
  "orderQuad_on get points =
     (let cx = centroid_x get points;
          cy = centroid_y get points;
          pts = sort_key (\<lambda>p. angle_key cx cy (get p)) points;
          start = start_index (map get pts)
      in pick4 pts start)"

definition orderQuad :: "point list \<Rightarrow> point option list" where
  "orderQuad points = orderQuad_on (\<lambda>p. p) points"

text \<open>
  The same function over an explicit store, to speak about what it writes. An array
  object holds references to point objects. \<^verbatim>\<open>points.slice()\<close> allocates a new array,
  \<^verbatim>\<open>sort\<close> writes that new array in place, the array literal returned is allocated
  last. Nothing assigns to a property of a point. The copy holds the elements of the
  input array, so the reads of \<^verbatim>\<open>p.x\<close> and \<^verbatim>\<open>p.y\<close> go through the same references
  \<open>refs\<close>; an \<^verbatim>\<open>undefined\<close> element or a dangling reference raises a \<^verbatim>\<open>TypeError\<close>.
\<close>

type_synonym addr = nat

record store =
  arrays :: "addr \<rightharpoonup> addr option list"
  objects :: "addr \<rightharpoonup> point"
  next_addr :: addr

definition alloc_array :: "addr option list \<Rightarrow> store \<Rightarrow> addr \<times> store" where
  "alloc_array xs st =
     (next_addr st, st\<lparr>arrays := (arrays st)(next_addr st \<mapsto> xs), next_addr := Suc (next_addr st)\<rparr>)"

definition deref :: "store \<Rightarrow> addr \<Rightarrow> point" where
  "deref st r = the (objects st r)"

definition orderQuad_st :: "addr \<Rightarrow> store \<Rightarrow> js_error + (addr \<times> store)" where
  "orderQuad_st points st =
     (case arrays st points of
        None \<Rightarrow> Inl TypeError
      | Some elems \<Rightarrow>
          (case those elems of
             None \<Rightarrow> Inl TypeError
           | Some refs \<Rightarrow>
               if \<not> set refs \<subseteq> dom (objects st) then Inl TypeError
               else
                 let (pts, st1) = alloc_array elems st;
                     cx = centroid_x (deref st1) refs;
                     cy = centroid_y (deref st1) refs;
                     sorted_refs = sort_key (\<lambda>r. angle_key cx cy (deref st1 r)) refs;
                     st2 = st1\<lparr>arrays := (arrays st1)(pts \<mapsto> map Some sorted_refs)\<rparr>;
                     start = start_index (map (deref st2) sorted_refs)
                 in Inr (alloc_array (pick4 sorted_refs start) st2)))"

subsection \<open>solveAffine\<close>

type_synonym matrix = "real list list"

record affine =
  aff_a :: real
  aff_b :: real
  aff_c :: real
  aff_d :: real
  aff_e :: real
  aff_f :: real

text \<open>
  The loop \<^verbatim>\<open>for (let i = 0; i < 4; i++)\<close> pushes two rows of \<open>A\<close> and two entries of
  \<open>B\<close> for each correspondence.
\<close>

definition build_A :: "point list \<Rightarrow> matrix" where
  "build_A from =
     concat (map (\<lambda>i. [[px (from ! i), py (from ! i), 1, 0, 0, 0],
                        [0, 0, 0, px (from ! i), py (from ! i), 1]]) [0..<4])"

definition build_B :: "point list \<Rightarrow> real list" where
  "build_B to = concat (map (\<lambda>i. [px (to ! i), py (to ! i)]) [0..<4])"

text \<open>
  \<^verbatim>\<open>const AT = (m) => m[0].map((_, j) => m.map((r) => r[j]));\<close>
  In \<open>solveAffine\<close> the arguments of \<open>AT\<close> and \<open>mul\<close> are never empty and every index is
  in range (\<open>A\<close> has eight rows of six entries); the lemmas \<open>build_A_wf\<close>, \<open>AT_wf\<close> and
  \<open>mul_wf\<close> below give the shapes.
\<close>

definition AT :: "matrix \<Rightarrow> matrix" where
  "AT m = map (\<lambda>j. map (\<lambda>r. r ! j) m) [0..<length (m ! 0)]"

text \<open>
  \<^verbatim>\<open>const mul = (m, n) =>
    m.map((r) => n[0].map((_, j) => r.reduce((s, v, k) => s + v * n[k][j], 0)));\<close>
\<close>

definition mul :: "matrix \<Rightarrow> matrix \<Rightarrow> matrix" where
  "mul m n =
     map (\<lambda>r. map (\<lambda>j. foldl (\<lambda>s kv. s + snd kv * n ! fst kv ! j) 0 (enumerate 0 r))
                   [0..<length (n ! 0)]) m"

text \<open>
  \<^verbatim>\<open>
  const inv = (m) => {
    const n = m.length,
      a = m.map((r, i) => [...r, ...Array.from({ length: n }, (_, j) => (i === j ? 1 : 0))]);
    for (let c = 0; c < n; c++) {
      let r = c;
      for (let i = c + 1; i < n; i++)
        if (Math.abs(a[i][c]) > Math.abs(a[r][c])) r = i;
      [a[c], a[r]] = [a[r], a[c]];
      const d = a[c][c] || 1e-9;
      for (let j = 0; j < 2 * n; j++) a[c][j] /= d;
      for (let i = 0; i < n; i++)
        if (i !== c) {
          const f = a[i][c];
          for (let j = 0; j < 2 * n; j++) a[i][j] -= f * a[c][j];
        }
    }
    return a.map((r) => r.slice(n));
  };
  \<close>
  Each loop is a \<^const>\<open>fold\<close> over its index range, each assignment a list update. The rows
  of \<open>a\<close> are distinct arrays, so a write to one row changes no other.
\<close>

definition augment :: "matrix \<Rightarrow> matrix" where
  "augment m =
     map (\<lambda>ir. snd ir @ map (\<lambda>j. if fst ir = j then 1 else 0) [0..<length m]) (enumerate 0 m)"

definition find_pivot :: "matrix \<Rightarrow> nat \<Rightarrow> nat \<Rightarrow> nat" where
  "find_pivot a n c = fold (\<lambda>i r. if \<bar>a ! i ! c\<bar> > \<bar>a ! r ! c\<bar> then i else r) [c + 1..<n] c"

definition swap_rows :: "matrix \<Rightarrow> nat \<Rightarrow> nat \<Rightarrow> matrix" where
  "swap_rows a c r = a[c := a ! r, r := a ! c]"

definition pivot_or_eps :: "real \<Rightarrow> real" where
  "pivot_or_eps v = or_num v (1 / 10 ^ 9)"

definition div_row :: "real \<Rightarrow> nat \<Rightarrow> real list \<Rightarrow> real list" where
  "div_row d k row = fold (\<lambda>j r. r[j := r ! j / d]) [0..<k] row"

definition sub_row :: "real \<Rightarrow> real list \<Rightarrow> nat \<Rightarrow> real list \<Rightarrow> real list" where
  "sub_row f rowc k row = fold (\<lambda>j r. r[j := r ! j - f * rowc ! j]) [0..<k] row"

definition eliminate :: "nat \<Rightarrow> nat \<Rightarrow> matrix \<Rightarrow> matrix" where
  "eliminate n c a =
     fold (\<lambda>i a. if i \<noteq> c then a[i := sub_row (a ! i ! c) (a ! c) (2 * n) (a ! i)] else a)
          [0..<n] a"

definition inv_step :: "nat \<Rightarrow> nat \<Rightarrow> matrix \<Rightarrow> matrix" where
  "inv_step n c a =
     (let r = find_pivot a n c;
          a1 = swap_rows a c r;
          d = pivot_or_eps (a1 ! c ! c);
          a2 = a1[c := div_row d (2 * n) (a1 ! c)]
      in eliminate n c a2)"

definition inv :: "matrix \<Rightarrow> matrix" where
  "inv m = (let n = length m in map (drop n) (fold (inv_step n) [0..<n] (augment m)))"

text \<open>
  \<^verbatim>\<open>
  const ATm = AT(A);
  const ATAi = inv(mul(ATm, A));
  const X = mul(ATAi, mul(ATm, B.map((v) => [v]))).map((r) => r[0]);
  const [a, b, c, d, e, f] = X;
  return { a, b, c, d, e, f };
  \<close>
  Destructuring \<^verbatim>\<open>from[i]\<close> or \<^verbatim>\<open>to[i]\<close> raises a \<^verbatim>\<open>TypeError\<close> when the array has
  fewer than four entries.
\<close>

definition solve_params :: "point list \<Rightarrow> point list \<Rightarrow> real list" where
  "solve_params from to =
     (let A = build_A from;
          B = build_B to;
          ATm = AT A;
          ATAi = inv (mul ATm A)
      in map (\<lambda>r. r ! 0) (mul ATAi (mul ATm (map (\<lambda>v. [v]) B))))"

definition solveAffine :: "point list \<Rightarrow> point list \<Rightarrow> js_error + affine" where
  "solveAffine from to =
     (if length from < 4 \<or> length to < 4 then Inl TypeError
      else let X = solve_params from to
           in Inr \<lparr>aff_a = X ! 0, aff_b = X ! 1, aff_c = X ! 2,
                   aff_d = X ! 3, aff_e = X ! 4, aff_f = X ! 5\<rparr>)"

subsection \<open>decomposeAffineToTRS\<close>

record vector3 =
  vx :: real
  vy :: real
  vz :: real

record pose =
  position :: vector3
  rotationZ :: real
  scale :: vector3

definition decomposeAffineToTRS :: "affine \<Rightarrow> pose" where
  "decomposeAffineToTRS p =
     (let sx = hypot (aff_a p) (aff_d p);
          sy = hypot (aff_b p) (aff_e p)
      in \<lparr>position = \<lparr>vx = aff_c p, vy = aff_f p, vz = 0\<rparr>,
          rotationZ = atan2 (aff_d p) (aff_a p),
          scale = \<lparr>vx = sx, vy = sy, vz = 1\<rparr>\<rparr>)"

subsection \<open>The application state and the point picker\<close>

text \<open>
  The state object \<open>S\<close> of \<^verbatim>\<open>App\<close>. The fields that the fit reads or writes are named;
  the other fields of the object (text, colours, raceway and logo settings, ...) are the
  extension part \<open>more\<close> of the record.
\<close>

record app_state =
  imgW :: real
  imgH :: real
  signTX :: real
  signTY :: real
  signRZ :: real
  signScale :: real
  size :: real
  fitPoints :: "point list"
  fitMode :: bool

text \<open>The click event: \<^verbatim>\<open>e.clientX\<close>, \<^verbatim>\<open>e.clientY\<close> and the target's bounding rectangle.\<close>

record click =
  clientX :: real
  clientY :: real
  rect_left :: real
  rect_top :: real

text \<open>
  \<^verbatim>\<open>
  const addPoint = (e) => {
    const rect = e.currentTarget.getBoundingClientRect();
    onPointsChange([...(points || []),
                    { x: e.clientX - rect.left, y: e.clientY - rect.top }].slice(0, 4));
  };
  \<close>
  with \<^verbatim>\<open>onPointsChange={(pts) => set({ fitPoints: pts })}\<close>. The property \<open>points\<close> may
  be absent: \<open>None\<close>.
\<close>

definition addPoint_list :: "point list option \<Rightarrow> click \<Rightarrow> point list" where
  "addPoint_list points e =
     take 4 ((case points of None \<Rightarrow> [] | Some ps \<Rightarrow> ps)
             @ [\<lparr>px = clientX e - rect_left e, py = clientY e - rect_top e\<rparr>])"

definition onPointsChange :: "point list \<Rightarrow> 'a app_state_scheme \<Rightarrow> 'a app_state_scheme" where
  "onPointsChange pts prev = prev\<lparr>fitPoints := pts\<rparr>"

definition addPoint :: "click \<Rightarrow> 'a app_state_scheme \<Rightarrow> 'a app_state_scheme" where
  "addPoint e S = onPointsChange (addPoint_list (Some (fitPoints S)) e) S"

subsection \<open>applyFourPointFit\<close>

text \<open>
  What the function reads from outside the state: the result \<open>{w, h}\<close> of
  \<^verbatim>\<open>getTextOnlyWorldSize()\<close> (a bounding box of the rendered scene) and
  \<^verbatim>\<open>window.innerWidth\<close> (\<open>None\<close> when there is no window).
\<close>

record fit_env =
  text_w :: real
  text_h :: real
  innerWidth :: "real option"

definition maxW :: "fit_env \<Rightarrow> real" where
  "maxW env = min 1400 (case innerWidth env of Some iw \<Rightarrow> iw * 0.75 | None \<Rightarrow> 1000)"

definition dispW :: "fit_env \<Rightarrow> 'a app_state_scheme \<Rightarrow> real" where
  "dispW env S = max 640 (min (maxW env) (imgW S))"

definition dispH :: "fit_env \<Rightarrow> 'a app_state_scheme \<Rightarrow> real" where
  "dispH env S = imgH S * (dispW env S / imgW S)"

text \<open>
  \<^verbatim>\<open>
  const { w, h } = getTextOnlyWorldSize();
  const pad = S.size * 0.5;
  const W = (w || 1) + pad * 2;
  const H = (h || 1) + pad * 2;
  const src = [{ x: -W / 2, y: -H / 2 }, { x: +W / 2, y: -H / 2 },
               { x: +W / 2, y: +H / 2 }, { x: -W / 2, y: +H / 2 }];
  \<close>
\<close>

definition src_W :: "fit_env \<Rightarrow> 'a app_state_scheme \<Rightarrow> real" where
  "src_W env S = or_num (text_w env) 1 + (size S * 0.5) * 2"

definition src_H :: "fit_env \<Rightarrow> 'a app_state_scheme \<Rightarrow> real" where
  "src_H env S = or_num (text_h env) 1 + (size S * 0.5) * 2"

definition src_corners :: "real \<Rightarrow> real \<Rightarrow> point list" where
  "src_corners W H =
     [\<lparr>px = - W / 2, py = - H / 2\<rparr>, \<lparr>px = W / 2, py = - H / 2\<rparr>,
      \<lparr>px = W / 2, py = H / 2\<rparr>, \<lparr>px = - W / 2, py = H / 2\<rparr>]"

text \<open>
  \<^verbatim>\<open>
  const screenToWorld = (pt) => {
    const planeW = 120;
    const sx = (pt.x / dispW) * planeW - planeW / 2;
    const planeH = planeW * (S.imgH / S.imgW);
    const sy = -(pt.y / dispH) * planeH + planeH / 2;
    return { x: sx, y: sy };
  };
  \<close>
\<close>

definition screenToWorld :: "fit_env \<Rightarrow> 'a app_state_scheme \<Rightarrow> point \<Rightarrow> point" where
  "screenToWorld env S pt =
     (let planeW = 120;
          sx = (px pt / dispW env S) * planeW - planeW / 2;
          planeH = planeW * (imgH S / imgW S);
          sy = - (py pt / dispH env S) * planeH + planeH / 2
      in \<lparr>px = sx, py = sy\<rparr>)"

text \<open>The object passed to \<^verbatim>\<open>set\<close>, and \<^verbatim>\<open>set\<close> itself: \<^verbatim>\<open>{ ...prev, ...patch }\<close>.\<close>

record fit_patch =
  patch_signTX :: real
  patch_signTY :: real
  patch_signRZ :: real
  patch_signScale :: real
  patch_fitMode :: bool
  patch_fitPoints :: "point list"

definition set_patch :: "fit_patch \<Rightarrow> 'a app_state_scheme \<Rightarrow> 'a app_state_scheme" where
  "set_patch p prev =
     prev\<lparr>signTX := patch_signTX p, signTY := patch_signTY p, signRZ := patch_signRZ p,
          signScale := patch_signScale p, fitMode := patch_fitMode p,
          fitPoints := patch_fitPoints p\<rparr>"

text \<open>
  \<^verbatim>\<open>
  const applyFourPointFit = () => {
    if (S.fitPoints.length !== 4) return;
    const [tl, tr, br, bl] = orderQuad(S.fitPoints);
    ... W, H, src, screenToWorld as above ...
    const tgt = [tl, tr, br, bl].map(screenToWorld);
    const aff = solveAffine(src, tgt);
    const { position, rotationZ, scale } = decomposeAffineToTRS(aff);
    set({ signTX: position.x, signTY: position.y, signRZ: rotationZ,
          signScale: Math.max(0.05, (scale.x + scale.y) / 2 || 1),
          fitMode: false, fitPoints: [] });
  };
  \<close>
  The model returns the trace of the calls made, and either the error raised or the
  argument of the one call of \<^verbatim>\<open>set\<close> (\<open>None\<close> when \<^verbatim>\<open>set\<close> is not called).
  \<^verbatim>\<open>screenToWorld\<close> reads \<^verbatim>\<open>pt.x\<close>, which raises when \<open>pt\<close> is \<^verbatim>\<open>undefined\<close>.
\<close>

datatype call =
  Call_orderQuad | Call_getTextOnlyWorldSize | Call_solveAffine
  | Call_decomposeAffineToTRS | Call_set

definition pose_patch :: "pose \<Rightarrow> fit_patch" where
  "pose_patch p =
     \<lparr>patch_signTX = vx (position p), patch_signTY = vy (position p),
      patch_signRZ = rotationZ p,
      patch_signScale = max 0.05 (or_num ((vx (scale p) + vy (scale p)) / 2) 1),
      patch_fitMode = False, patch_fitPoints = []\<rparr>"

definition applyFourPointFit ::
  "fit_env \<Rightarrow> 'a app_state_scheme \<Rightarrow> call list \<times> (js_error + fit_patch option)" where
  "applyFourPointFit env S =
     (if length (fitPoints S) \<noteq> 4 then ([], Inr None)
      else
        let quad = orderQuad (fitPoints S);
            src = src_corners (src_W env S) (src_H env S)
        in case those quad of
             None \<Rightarrow> ([Call_orderQuad, Call_getTextOnlyWorldSize], Inl TypeError)
           | Some ordered \<Rightarrow>
               (case solveAffine src (map (screenToWorld env S) ordered) of
                  Inl err \<Rightarrow>
                    ([Call_orderQuad, Call_getTextOnlyWorldSize, Call_solveAffine], Inl err)
                | Inr aff \<Rightarrow>
                    ([Call_orderQuad, Call_getTextOnlyWorldSize, Call_solveAffine,
                      Call_decomposeAffineToTRS, Call_set],
                     Inr (Some (pose_patch (decomposeAffineToTRS aff))))))"

text \<open>
  The state after the handler has run: \<^verbatim>\<open>set\<close> updates the current state \<open>prev\<close>; the
  handler read the state \<open>S\<close> of its render. Without a call of \<^verbatim>\<open>set\<close>, and when the
  handler raised, the state stays as it is.
\<close>

definition after_applyFourPointFit ::
  "fit_env \<Rightarrow> 'a app_state_scheme \<Rightarrow> 'a app_state_scheme \<Rightarrow> 'a app_state_scheme" where
  "after_applyFourPointFit env S prev =
     (case snd (applyFourPointFit env S) of
        Inr (Some p) \<Rightarrow> set_patch p prev
      | _ \<Rightarrow> prev)"

subsection \<open>Notions used to state the properties\<close>

text \<open>The quantity \<^verbatim>\<open>p.x + p.y\<close> that the \<^verbatim>\<open>forEach\<close> of \<open>orderQuad\<close> minimises.\<close>

definition xy_sum :: "point \<Rightarrow> real" where
  "xy_sum p = px p + py p"

text \<open>
  The array that \<open>orderQuad\<close> returns for four points, without the \<open>undefined\<close> layer:
  the sorted copy, rotated to begin at index \<open>start\<close>.
\<close>

definition ordered_quad :: "('a \<Rightarrow> point) \<Rightarrow> 'a list \<Rightarrow> 'a list" where
  "ordered_quad get ps =
     (let srt = sort_key (\<lambda>p. angle_key (centroid_x get ps) (centroid_y get ps) (get p)) ps
      in rotate (start_index (map get srt)) srt)"

text \<open>The call of \<open>solveAffine\<close> that \<open>applyFourPointFit\<close> makes.\<close>

definition fit_affine :: "fit_env \<Rightarrow> 'a app_state_scheme \<Rightarrow> js_error + affine" where
  "fit_affine env S =
     solveAffine (src_corners (src_W env S) (src_H env S))
       (map (screenToWorld env S) (ordered_quad (\<lambda>p. p) (fitPoints S)))"

text \<open>
  Concrete inputs: the initial state of \<open>App\<close> (image 1600 by 900, size 32) in fit mode,
  with four picked points given in a scrambled order, and with three points only.
\<close>

definition demo_env :: fit_env where
  "demo_env = \<lparr>text_w = 10, text_h = 4, innerWidth = Some 1920\<rparr>"

definition demo_points :: "point list" where
  "demo_points = [\<lparr>px = 300, py = 200\<rparr>, \<lparr>px = 100, py = 100\<rparr>,
                  \<lparr>px = 100, py = 200\<rparr>, \<lparr>px = 300, py = 100\<rparr>]"

definition demo_state :: "point list \<Rightarrow> app_state" where
  "demo_state pts =
     \<lparr>imgW = 1600, imgH = 900, signTX = 0, signTY = 0, signRZ = 0, signScale = 1,
      size = 32, fitPoints = pts, fitMode = True\<rparr>"


text \<open>A store with one array of four references to point objects.\<close>

definition demo_store :: store where
  "demo_store =
     \<lparr>arrays = [0 \<mapsto> [Some 1, Some 2, Some 3, Some 4]],
      objects = [1 \<mapsto> \<lparr>px = 300, py = 200\<rparr>, 2 \<mapsto> \<lparr>px = 100, py = 100\<rparr>,
                 3 \<mapsto> \<lparr>px = 100, py = 200\<rparr>, 4 \<mapsto> \<lparr>px = 300, py = 100\<rparr>],
      next_addr = 5\<rparr>"

text \<open>
  Shapes of matrices, the invariant of the Gauss-Jordan loop of \<open>inv\<close> after \<open>c\<close> columns
  (each row of the left half is the right half times \<open>m\<close>, the first \<open>c\<close> columns are unit
  columns, and a vector annihilated by the left half is annihilated by \<open>m\<close>), and the
  entries of \<open>A\<^sup>tA\<close> and \<open>A\<^sup>tB\<close>.
\<close>

definition wf_aug :: "nat \<Rightarrow> matrix \<Rightarrow> bool" where
  "wf_aug n a \<longleftrightarrow> length a = n \<and> (\<forall>i<n. length (a ! i) = 2 * n)"

definition gj_inv :: "nat \<Rightarrow> matrix \<Rightarrow> nat \<Rightarrow> matrix \<Rightarrow> bool" where
  "gj_inv n m c a \<longleftrightarrow>
     wf_aug n a
   \<and> (\<forall>i<n. \<forall>j<n. a ! i ! j = (\<Sum>k<n. a ! i ! (n + k) * m ! k ! j))
   \<and> (\<forall>i<n. \<forall>j<c. a ! i ! j = (if i = j then 1 else 0))
   \<and> (\<forall>x. (\<forall>i<n. (\<Sum>j<n. a ! i ! j * x j) = 0) \<longrightarrow> (\<forall>i<n. (\<Sum>j<n. m ! i ! j * x j) = 0))"

definition wf_mat :: "nat \<Rightarrow> nat \<Rightarrow> matrix \<Rightarrow> bool" where
  "wf_mat r c m \<longleftrightarrow> length m = r \<and> (\<forall>i<r. length (m ! i) = c)"

definition regular :: "nat \<Rightarrow> matrix \<Rightarrow> bool" where
  "regular n m \<longleftrightarrow> (\<forall>x. (\<forall>i<n. (\<Sum>j<n. m ! i ! j * x j) = 0) \<longrightarrow> (\<forall>j<n. x j = 0))"

definition ident :: "nat \<Rightarrow> matrix" where
  "ident n = map (\<lambda>i. map (\<lambda>j. if i = j then 1 else 0) [0..<n]) [0..<n]"

definition gram :: "matrix \<Rightarrow> nat \<Rightarrow> nat \<Rightarrow> real" where
  "gram A i j = (\<Sum>r<length A. A ! r ! i * A ! r ! j)"

definition moment :: "matrix \<Rightarrow> real list \<Rightarrow> nat \<Rightarrow> real" where
  "moment A B j = (\<Sum>r<length A. A ! r ! j * B ! r)"

definition inverse_of :: "nat \<Rightarrow> matrix \<Rightarrow> (nat \<Rightarrow> nat \<Rightarrow> real) \<Rightarrow> bool" where
  "inverse_of n N G \<longleftrightarrow>
     wf_mat n n N
   \<and> (\<forall>i<n. \<forall>j<n. (\<Sum>k<n. N ! i ! k * G k j) = (if i = j then 1 else 0))
   \<and> (\<forall>i<n. \<forall>j<n. (\<Sum>k<n. G i k * N ! k ! j) = (if i = j then 1 else 0))"

definition affine_of :: "(nat \<Rightarrow> real) \<Rightarrow> affine" where
  "affine_of X = \<lparr>aff_a = X 0, aff_b = X 1, aff_c = X 2, aff_d = X 3, aff_e = X 4, aff_f = X 5\<rparr>"

text \<open>
  The total squared residual of the affine map \<open>q\<close> over the four correspondences, and the
  design matrix and target vector in the words of the specification.
\<close>

definition sq_residual :: "point list \<Rightarrow> point list \<Rightarrow> affine \<Rightarrow> real" where
  "sq_residual from to q =
     (\<Sum>i<4. (aff_a q * px (from ! i) + aff_b q * py (from ! i) + aff_c q - px (to ! i))\<^sup>2
           + (aff_d q * px (from ! i) + aff_e q * py (from ! i) + aff_f q - py (to ! i))\<^sup>2)"

definition design_matrix :: "point list \<Rightarrow> matrix" where
  "design_matrix from =
     concat (map (\<lambda>p. [[px p, py p, 1, 0, 0, 0], [0, 0, 0, px p, py p, 1]]) from)"

definition target_vector :: "point list \<Rightarrow> real list" where
  "target_vector to = concat (map (\<lambda>q. [px q, py q]) to)"

definition quarter_ident :: matrix where
  "quarter_ident = map (\<lambda>i. map (\<lambda>j. if i = j then 1 / 4 else 0) [0..<6]) [0..<6]"

definition shifted_square :: "point list" where
  "shifted_square = [\<lparr>px = 4, py = 6\<rparr>, \<lparr>px = 6, py = 6\<rparr>, \<lparr>px = 6, py = 8\<rparr>, \<lparr>px = 4, py = 8\<rparr>]"

text \<open>
  The similarity with translation \<open>(dx, dy)\<close>, rotation angle \<open>t\<close> about the origin and
  scale \<open>s\<close>; the inverse of \<open>A\<^sup>tA\<close> for the corners of a \<open>W\<close> by \<open>H\<close> rectangle; the two
  rows of the design matrix for one source point.
\<close>

definition similarity :: "real \<Rightarrow> real \<Rightarrow> real \<Rightarrow> real \<Rightarrow> point \<Rightarrow> point" where
  "similarity dx dy t s p =
     \<lparr>px = s * (cos t * px p - sin t * py p) + dx,
      py = s * (sin t * px p + cos t * py p) + dy\<rparr>"

definition corner_inverse :: "real \<Rightarrow> real \<Rightarrow> matrix" where
  "corner_inverse W H =
     map (\<lambda>i. map (\<lambda>j. if i = j then 1 / [W * W, H * H, 4, W * W, H * H, 4] ! i else 0) [0..<6])
         [0..<6]"

definition row_X :: "point \<Rightarrow> real list" where
  "row_X p = [px p, py p, 1, 0, 0, 0]"

definition row_Y :: "point \<Rightarrow> real list" where
  "row_Y p = [0, 0, 0, px p, py p, 1]"

text \<open>A square picked on the screen, in a scrambled click order.\<close>

definition square_picks :: "point list" where
  "square_picks = [\<lparr>px = 300, py = 300\<rparr>, \<lparr>px = 100, py = 100\<rparr>,
                   \<lparr>px = 100, py = 300\<rparr>, \<lparr>px = 300, py = 100\<rparr>]"

text \<open>
  The array \<open>a\<close> of \<open>inv\<close> when the loop reaches column \<open>c\<close>, and the matrix \<open>A\<^sup>tA\<close>
  that \<open>applyFourPointFit\<close> has \<open>solveAffine\<close> invert.
\<close>

definition inv_state :: "matrix \<Rightarrow> nat \<Rightarrow> matrix" where
  "inv_state m c = fold (inv_step (length m)) [0..<c] (augment m)"

definition fit_normal :: "fit_env \<Rightarrow> 'a app_state_scheme \<Rightarrow> matrix" where
  "fit_normal env S =
     mul (AT (build_A (src_corners (src_W env S) (src_H env S))))
         (build_A (src_corners (src_W env S) (src_H env S)))"

text \<open>
  The corners of the \<open>W\<close> by \<open>H\<close> rectangle centred at the origin in the order top-left,
  top-right, bottom-right, bottom-left of a y-up space, and the affine map with the sign
  of \<open>b\<close> and \<open>e\<close> changed (the map composed with the reflection \<open>y \<mapsto> -y\<close> of the
  source).
\<close>

definition corners_y_up :: "real \<Rightarrow> real \<Rightarrow> point list" where
  "corners_y_up W H =
     [\<lparr>px = - W / 2, py = H / 2\<rparr>, \<lparr>px = W / 2, py = H / 2\<rparr>,
      \<lparr>px = W / 2, py = - H / 2\<rparr>, \<lparr>px = - W / 2, py = - H / 2\<rparr>]"

definition mirror :: "affine \<Rightarrow> affine" where
  "mirror p = p\<lparr>aff_b := - aff_b p, aff_e := - aff_e p\<rparr>"

subsection \<open>orderQuad on doubles\<close>

text \<open>
  \<^verbatim>\<open>orderQuad\<close> once more, now with the result of every addition, subtraction and division
  passed through a rounding function \<open>rnd\<close>, and with \<open>at2\<close> for \<^verbatim>\<open>Math.atan2\<close>, whose
  precision ECMAScript leaves to the implementation. With \<open>rnd\<close> the identity and
  \<open>at2 = atan2\<close> this is \<open>orderQuad\<close> (lemma \<open>orderQuad_rnd_exact\<close>).

  With \<open>rnd = fl\<close> it is the computation on doubles. \<open>fl x\<close> is the number with a
  significand of 53 bits nearest to \<open>x\<close>, a tie going to the even significand: the rounding
  of IEEE-754 binary64 that ECMAScript prescribes for \<^verbatim>\<open>+\<close>, \<^verbatim>\<open>-\<close> and \<^verbatim>\<open>/\<close>. The exponent
  is unbounded: there is no overflow to \<^verbatim>\<open>Infinity\<close> and there are no subnormal numbers,
  neither of which the sums, differences and means of pixel coordinates reach.
  \<open>round_he\<close> rounds a real to the nearest integer, a tie going to the even one. The
  zero of the model is the positive zero: the difference of two equal doubles is \<^verbatim>\<open>+0\<close>,
  and \<^verbatim>\<open>Math.atan2(+0, u)\<close> is \<open>\<pi>\<close> for negative \<open>u\<close>, as \<open>atan2 0 u\<close> is. Values of \<open>fl\<close>
  are computed with lemma \<open>fl_eval\<close>.

  The comparator of \<^verbatim>\<open>sort\<close> returns the rounded difference of two keys. Rounding keeps
  the sign of a difference of two doubles, so \<^verbatim>\<open>sort\<close> is still the stable sort by the
  key. The comparison \<^verbatim>\<open>v < best\<close> is exact.
\<close>

definition round_he :: "real \<Rightarrow> int" where
  "round_he x =
     (let f = \<lfloor>x\<rfloor>; r = x - of_int f
      in if r < 1 / 2 then f else if 1 / 2 < r then f + 1 else if even f then f else f + 1)"

definition fl :: "real \<Rightarrow> real" where
  "fl x =
     (if x = 0 then 0
      else let u = 2 powr (of_int \<lfloor>log 2 \<bar>x\<bar>\<rfloor> - 52)
           in of_int (round_he (x / u)) * u)"

text \<open>
  \<^verbatim>\<open>pts.reduce((s, p) => s + p.x, 0) / pts.length\<close>: each addition is rounded, in the
  order of the array, and so is the division.
\<close>

definition centroid_x_rnd :: "(real \<Rightarrow> real) \<Rightarrow> point list \<Rightarrow> real" where
  "centroid_x_rnd rnd pts = rnd (foldl (\<lambda>s p. rnd (s + px p)) 0 pts / real (length pts))"

definition centroid_y_rnd :: "(real \<Rightarrow> real) \<Rightarrow> point list \<Rightarrow> real" where
  "centroid_y_rnd rnd pts = rnd (foldl (\<lambda>s p. rnd (s + py p)) 0 pts / real (length pts))"

text \<open>\<^verbatim>\<open>Math.atan2(a.y - cy, a.x - cx)\<close>: both differences are rounded.\<close>

definition angle_key_rnd ::
  "(real \<Rightarrow> real) \<Rightarrow> (real \<Rightarrow> real \<Rightarrow> real) \<Rightarrow> real \<Rightarrow> real \<Rightarrow> point \<Rightarrow> real" where
  "angle_key_rnd rnd at2 cx cy p = at2 (rnd (py p - cy)) (rnd (px p - cx))"

text \<open>\<^verbatim>\<open>const v = p.x + p.y; if (v < best) { best = v; start = i; }\<close>\<close>

definition best_step_rnd ::
  "(real \<Rightarrow> real) \<Rightarrow> nat \<times> real option \<Rightarrow> nat \<times> point \<Rightarrow> nat \<times> real option" where
  "best_step_rnd rnd sb ip =
     (let v = rnd (px (snd ip) + py (snd ip))
      in if (case snd sb of None \<Rightarrow> True | Some b \<Rightarrow> v < b) then (fst ip, Some v) else sb)"

definition start_index_rnd :: "(real \<Rightarrow> real) \<Rightarrow> point list \<Rightarrow> nat" where
  "start_index_rnd rnd pts = fst (foldl (best_step_rnd rnd) (0, None) (enumerate 0 pts))"

definition orderQuad_rnd ::
  "(real \<Rightarrow> real) \<Rightarrow> (real \<Rightarrow> real \<Rightarrow> real) \<Rightarrow> point list \<Rightarrow> point option list" where
  "orderQuad_rnd rnd at2 points =
     (let cx = centroid_x_rnd rnd points;
          cy = centroid_y_rnd rnd points;
          pts = sort_key (angle_key_rnd rnd at2 cx cy) points;
          start = start_index_rnd rnd pts
      in pick4 pts start)"

text \<open>
  Four picks on a diamond, written as the number literals \<^verbatim>\<open>220.1\<close>, \<^verbatim>\<open>634.4\<close>,
  \<^verbatim>\<open>244\<close>, \<^verbatim>\<open>610.5\<close>, \<^verbatim>\<open>267.9\<close> and \<^verbatim>\<open>658.3\<close>; a literal denotes the double
  nearest to it. The second list has the last two clicks exchanged.
\<close>

definition pick_left :: point where
  "pick_left = \<lparr>px = fl (2201 / 10), py = fl (3172 / 5)\<rparr>"

definition pick_top :: point where
  "pick_top = \<lparr>px = fl 244, py = fl (1221 / 2)\<rparr>"

definition pick_right :: point where
  "pick_right = \<lparr>px = fl (2679 / 10), py = fl (3172 / 5)\<rparr>"

definition pick_bottom :: point where
  "pick_bottom = \<lparr>px = fl 244, py = fl (6583 / 10)\<rparr>"

definition diamond_clicks :: "point list" where
  "diamond_clicks = [pick_left, pick_top, pick_right, pick_bottom]"

definition diamond_clicks_swapped :: "point list" where
  "diamond_clicks_swapped = [pick_left, pick_top, pick_bottom, pick_right]"

section \<open>Properties\<close>

subsection \<open>Reading orderQuad\<close>

lemma fold_best_invariant:
  "xs \<noteq> [] \<Longrightarrow>
   (\<exists>i < length xs. foldl best_step (0, None) (enumerate 0 xs) = (i, Some (xy_sum (xs ! i)))
      \<and> (\<forall>j < length xs. xy_sum (xs ! i) \<le> xy_sum (xs ! j))
      \<and> (\<forall>j < i. xy_sum (xs ! i) < xy_sum (xs ! j)))"
proof (induction xs rule: rev_induct)
  case Nil
  then show ?case by simp
next
  case (snoc p xs)
  show ?case
  proof (cases "xs = []")
    case True
    then show ?thesis by (simp add: best_step_def xy_sum_def)
  next
    case False
    with snoc.IH obtain i where i: "i < length xs"
      and f: "foldl best_step (0, None) (enumerate 0 xs) = (i, Some (xy_sum (xs ! i)))"
      and le: "\<And>j. j < length xs \<Longrightarrow> xy_sum (xs ! i) \<le> xy_sum (xs ! j)"
      and lt: "\<And>j. j < i \<Longrightarrow> xy_sum (xs ! i) < xy_sum (xs ! j)"
      by blast
    show ?thesis
    proof (cases "xy_sum p < xy_sum (xs ! i)")
      case True
      have 1: "foldl best_step (0, None) (enumerate 0 (xs @ [p])) = (length xs, Some (xy_sum p))"
        using True f by (simp add: enumerate_append_eq best_step_def xy_sum_def)
      have 2: "xy_sum p \<le> xy_sum ((xs @ [p]) ! j)" if "j < Suc (length xs)" for j
      proof (cases "j < length xs")
        case True
        with le[of j] \<open>xy_sum p < xy_sum (xs ! i)\<close> show ?thesis by (simp add: nth_append)
      next
        case False
        with that have "j = length xs" by simp
        then show ?thesis by simp
      qed
      have 3: "xy_sum p < xy_sum ((xs @ [p]) ! j)" if "j < length xs" for j
        using le[OF that] True that by (simp add: nth_append)
      show ?thesis
        apply (rule exI[of _ "length xs"])
        using 1 2 3 by simp
    next
      case False
      have 1: "foldl best_step (0, None) (enumerate 0 (xs @ [p]))
               = (i, Some (xy_sum ((xs @ [p]) ! i)))"
        using False i f by (simp add: enumerate_append_eq best_step_def xy_sum_def nth_append)
      have 2: "xy_sum ((xs @ [p]) ! i) \<le> xy_sum ((xs @ [p]) ! j)" if "j < Suc (length xs)" for j
      proof (cases "j < length xs")
        case True
        with le[of j] i show ?thesis by (simp add: nth_append)
      next
        case F: False
        with that have "j = length xs" by simp
        then show ?thesis using False i by (simp add: nth_append)
      qed
      have 3: "xy_sum ((xs @ [p]) ! i) < xy_sum ((xs @ [p]) ! j)" if "j < i" for j
        using lt[OF that] that i by (simp add: nth_append)
      show ?thesis
        apply (rule exI[of _ i])
        using 1 2 3 i by simp
    qed
  qed
qed

lemma start_index_props:
  assumes "pts \<noteq> []"
  shows "start_index pts < length pts"
    and "\<forall>j < length pts. xy_sum (pts ! start_index pts) \<le> xy_sum (pts ! j)"
    and "\<forall>j < start_index pts. xy_sum (pts ! start_index pts) < xy_sum (pts ! j)"
  using fold_best_invariant[OF assms] by (auto simp: start_index_def)

lemma quad_as_rotate:
  assumes "length s = 4" "k < 4"
  shows "pick4 s k = map Some (rotate k s)"
proof -
  obtain a b c d where s: "s = [a, b, c, d]"
    using assms(1) by (auto simp: length_Suc_conv numeral_eq_Suc)
  from assms(2) consider "k = 0" | "k = 1" | "k = 2" | "k = 3" by linarith
  then show ?thesis
  proof cases
    case 1 then show ?thesis by (simp add: s nth_opt_def pick4_def)
  next
    case 2 then show ?thesis by (simp add: s nth_opt_def pick4_def)
  next
    case 3
    have "rotate 2 s = [c, d, a, b]" by (simp add: s rotate_def numeral_2_eq_2)
    then show ?thesis using 3 by (simp add: s nth_opt_def pick4_def)
  next
    case 4
    have "rotate 3 s = [d, a, b, c]" by (simp add: s rotate_def numeral_3_eq_3)
    then show ?thesis using 4 by (simp add: s nth_opt_def pick4_def)
  qed
qed

lemma those_map_Some: "those (map Some xs) = Some xs"
  by (induction xs) simp_all

lemma start_index_sorted_lt:
  assumes "length ps = 4"
  shows "start_index (map get (sort_key f ps)) < 4"
proof -
  have "length (map get (sort_key f ps)) = 4" using assms by simp
  moreover from this have "map get (sort_key f ps) \<noteq> []"
    by (metis length_0_conv zero_neq_numeral)
  ultimately show ?thesis
    using start_index_props(1)[of "map get (sort_key f ps)"] by simp
qed

lemma orderQuad_on_four:
  assumes "length ps = 4"
  shows "orderQuad_on get ps = map Some (ordered_quad get ps)"
  unfolding orderQuad_on_def ordered_quad_def Let_def
  by (rule quad_as_rotate) (simp_all add: assms start_index_sorted_lt)

lemma length_ordered_quad [simp]: "length (ordered_quad get ps) = length ps"
  by (simp add: ordered_quad_def Let_def)

lemma mset_rotate: "mset (rotate n xs) = mset xs"
proof -
  have "mset (drop k xs @ take k xs) = mset (take k xs @ drop k xs)" for k
    by (simp only: mset_append union_commute)
  then show ?thesis
    by (simp add: rotate_drop_take del: mset_append)
qed

lemma mset_ordered_quad [simp]: "mset (ordered_quad get ps) = mset ps"
  by (simp add: ordered_quad_def Let_def mset_rotate)

subsection \<open>The orchestration on four points\<close>

lemma solveAffine_four:
  "length from = 4 \<Longrightarrow> length to = 4 \<Longrightarrow> \<exists>aff. solveAffine from to = Inr aff"
  by (simp add: solveAffine_def Let_def)

lemma applyFourPointFit_four:
  assumes "length (fitPoints S) = 4"
  shows "\<exists>aff. fit_affine env S = Inr aff \<and>
           applyFourPointFit env S =
             ([Call_orderQuad, Call_getTextOnlyWorldSize, Call_solveAffine,
               Call_decomposeAffineToTRS, Call_set],
              Inr (Some (pose_patch (decomposeAffineToTRS aff))))"
proof -
  have len: "length (src_corners (src_W env S) (src_H env S)) = 4"
    by (simp add: src_corners_def)
  obtain aff where aff: "fit_affine env S = Inr aff"
    unfolding fit_affine_def
    using solveAffine_four[OF len,
        of "map (screenToWorld env S) (ordered_quad (\<lambda>p. p) (fitPoints S))"] assms
    by auto
  have "orderQuad (fitPoints S) = map Some (ordered_quad (\<lambda>p. p) (fitPoints S))"
    unfolding orderQuad_def by (rule orderQuad_on_four[OF assms])
  with aff assms show ?thesis
    by (simp add: applyFourPointFit_def those_map_Some fit_affine_def)
qed



subsection \<open>The point count guard\<close>

text \<open>
  C7. When \<open>fitPoints\<close> does not hold exactly four points, \<open>applyFourPointFit\<close> returns at
  once: it calls none of \<open>orderQuad\<close>, \<open>solveAffine\<close>, \<open>decomposeAffineToTRS\<close> (nor
  \<open>set\<close>), raises nothing, and the whole application state is unchanged.
\<close>

theorem applyFourPointFit_guard:
  assumes "length (fitPoints S) \<noteq> 4"
  shows "applyFourPointFit env S = ([], Inr None) \<and> after_applyFourPointFit env S prev = prev"
  using assms by (simp add: applyFourPointFit_def after_applyFourPointFit_def)

theorem applyFourPointFit_guard_witness:
  "length (fitPoints (demo_state (take 3 demo_points))) \<noteq> 4 \<and>
   applyFourPointFit demo_env (demo_state (take 3 demo_points)) = ([], Inr None) \<and>
   after_applyFourPointFit demo_env (demo_state (take 3 demo_points)) (demo_state [])
     = demo_state []"
proof -
  have h: "length (fitPoints (demo_state (take 3 demo_points))) \<noteq> 4"
    by (simp add: demo_state_def demo_points_def)
  from h applyFourPointFit_guard[OF h, of demo_env "demo_state []"] show ?thesis
    by simp
qed

subsection \<open>The point picker\<close>

text \<open>
  C9. Whatever points are stored and whatever the click, the list that \<open>addPoint\<close> hands
  to \<open>onPointsChange\<close> (the stored points, then the click position, cut to the first
  four) has at most four entries, and so has \<open>fitPoints\<close> of the state after the click.
\<close>

theorem addPoint_at_most_four:
  "length (addPoint_list points e) \<le> 4 \<and> length (fitPoints (addPoint e S)) \<le> 4"
proof -
  have cap: "length (take 4 xs) \<le> 4" for xs :: "point list"
    by simp
  have list: "length (addPoint_list ps e) \<le> 4" for ps
    unfolding addPoint_list_def by (rule cap)
  have "fitPoints (addPoint e S) = addPoint_list (Some (fitPoints S)) e"
    by (simp add: addPoint_def onPointsChange_def)
  with list show ?thesis
    by simp
qed

subsection \<open>Sorting and the centroid\<close>

lemma foldl_add_sum_list:
  "foldl (\<lambda>s p. s + f p) a ps = a + sum_list (map f ps)" for a :: real
  by (induction ps arbitrary: a) simp_all

lemma centroid_x_mean: "centroid_x get ps = sum_list (map (\<lambda>p. px (get p)) ps) / real (length ps)"
  by (simp add: centroid_x_def foldl_add_sum_list)

lemma centroid_y_mean: "centroid_y get ps = sum_list (map (\<lambda>p. py (get p)) ps) / real (length ps)"
  by (simp add: centroid_y_def foldl_add_sum_list)

lemma sum_list_mset_cong:
  assumes "mset qs = mset ps"
  shows "sum_list (map f qs) = (sum_list (map f ps) :: real)"
proof -
  have "sum_mset (mset (map f qs)) = sum_mset (mset (map f ps))"
    using assms by (metis mset_map)
  then show ?thesis by (simp only: sum_mset_sum_list)
qed

lemma centroid_perm:
  assumes "mset qs = mset ps"
  shows "centroid_x get qs = centroid_x get ps" "centroid_y get qs = centroid_y get ps"
  using sum_list_mset_cong[OF assms] mset_eq_length[OF assms]
  by (simp_all add: centroid_x_mean centroid_y_mean)

lemma sort_key_perm:
  assumes "mset qs = mset ps" and "distinct (map f ps)"
  shows "sort_key f qs = sort_key f ps"
proof -
  have set_eq: "set qs = set ps" using assms(1) by (rule mset_eq_setD)
  have "mset (map f qs) = mset (map f ps)" using assms(1) by (metis mset_map)
  then have dq: "distinct (map f qs)" using assms(2) by (metis mset_eq_imp_distinct_iff)
  have "mset (map f (sort_key f qs)) = mset (map f qs)" "mset (map f (sort_key f ps)) = mset (map f ps)"
    by (metis mset_map mset_sort)+
  then have d: "distinct (map f (sort_key f qs))" "distinct (map f (sort_key f ps))"
    using dq assms(2) by (metis mset_eq_imp_distinct_iff)+
  have "set (map f (sort_key f qs)) = set (map f (sort_key f ps))"
    using set_eq by simp
  with d have "map f (sort_key f qs) = map f (sort_key f ps)"
    by (intro sorted_distinct_set_unique) simp_all
  moreover have "inj_on f (set (sort_key f qs) \<union> set (sort_key f ps))"
    using assms(2) set_eq by (simp add: distinct_map)
  ultimately show ?thesis
    by (simp add: inj_on_map_eq_map)
qed

lemma ordered_quad_perm:
  assumes "mset qs = mset ps"
    and "distinct (map (\<lambda>p. angle_key (centroid_x get ps) (centroid_y get ps) (get p)) ps)"
  shows "ordered_quad get qs = ordered_quad get ps"
  unfolding ordered_quad_def centroid_perm[OF assms(1)]
  using sort_key_perm[OF assms] by (simp add: Let_def)

text \<open>
  In exact arithmetic the order of submission does not matter. Let four points have
  pairwise distinct angles about their centroid. Then \<open>orderQuad\<close> gives the same sequence
  for every permutation \<open>qs\<close> of them as for the points themselves, and so does the whole
  of \<open>applyFourPointFit\<close>. This rests on the sum of the coordinates being the same in
  every order, which holds for reals and not for doubles: see \<open>orderQuad_rnd\<close> below.
\<close>

lemma orderQuad_order_invariant_exact:
  assumes "length pts = 4"
    and "mset qs = mset pts"
    and "distinct (map (\<lambda>p. atan2 (py p - sum_list (map py pts) / 4)
                                  (px p - sum_list (map px pts) / 4)) pts)"
  shows "orderQuad qs = orderQuad pts \<and>
         applyFourPointFit env (S\<lparr>fitPoints := qs\<rparr>) = applyFourPointFit env (S\<lparr>fitPoints := pts\<rparr>)"
proof -
  have lq: "length qs = 4" using assms(1,2) by (metis mset_eq_length)
  have "distinct (map (\<lambda>p. angle_key (centroid_x (\<lambda>p. p) pts) (centroid_y (\<lambda>p. p) pts) p) pts)"
    using assms(1,3) by (simp add: angle_key_def centroid_x_mean centroid_y_mean)
  from ordered_quad_perm[OF assms(2) this]
  have oq: "orderQuad qs = orderQuad pts"
    by (simp add: orderQuad_def orderQuad_on_four assms(1) lq)
  have env_eq: "src_W env (S\<lparr>fitPoints := qs\<rparr>) = src_W env (S\<lparr>fitPoints := pts\<rparr>)"
       "src_H env (S\<lparr>fitPoints := qs\<rparr>) = src_H env (S\<lparr>fitPoints := pts\<rparr>)"
       "screenToWorld env (S\<lparr>fitPoints := qs\<rparr>) = screenToWorld env (S\<lparr>fitPoints := pts\<rparr>)"
    by (simp_all add: src_W_def src_H_def screenToWorld_def dispW_def dispH_def fun_eq_iff)
  have "orderQuad pts = map Some (ordered_quad (\<lambda>p. p) pts)"
    by (simp add: orderQuad_def orderQuad_on_four[OF assms(1)])
  with oq show ?thesis
    by (simp add: applyFourPointFit_def assms(1) lq env_eq those_map_Some)
qed


subsection \<open>orderQuad over the store\<close>

lemma deref_update [simp]:
  "deref (st\<lparr>arrays := A\<rparr>) = deref st" "deref (st\<lparr>next_addr := n\<rparr>) = deref st"
  by (simp_all add: deref_def fun_eq_iff)

lemma insort_key_map:
  "insort_key f (g x) (map g xs) = map g (insort_key (\<lambda>p. f (g p)) x xs)"
  by (induction xs) simp_all

lemma sort_key_map: "sort_key f (map g xs) = map g (sort_key (\<lambda>p. f (g p)) xs)"
  by (induction xs) (simp_all add: insort_key_map)

lemma centroid_map:
  "centroid_x (\<lambda>p. p) (map get ps) = centroid_x get ps"
  "centroid_y (\<lambda>p. p) (map get ps) = centroid_y get ps"
  by (simp_all add: centroid_x_mean centroid_y_mean comp_def)

lemma ordered_quad_map: "ordered_quad (\<lambda>p. p) (map get ps) = map get (ordered_quad get ps)"
  by (simp add: ordered_quad_def Let_def centroid_map sort_key_map rotate_map)

text \<open>
  C10. Let the array at address \<open>a\<close> hold references to four point objects. Then
  \<open>orderQuad\<close> returns a new array at \<open>out\<close> and leaves the array at \<open>a\<close>, every
  other array allocated before the call, and all point objects as they were: the sort
  works on the copy. The returned array is a permutation of the input: each reference, and
  so each point, occurs in it exactly as often as in the input. Its points are those that
  \<open>orderQuad\<close> on point values returns.
\<close>

theorem orderQuad_keeps_input:
  assumes "arrays st a = Some (map Some refs)"
    and "length refs = 4"
    and "set refs \<subseteq> dom (objects st)"
    and "a < next_addr st"
  shows "\<exists>out st' res.
           orderQuad_st a st = Inr (out, st')
         \<and> arrays st' a = Some (map Some refs)
         \<and> objects st' = objects st
         \<and> (\<forall>b < next_addr st. arrays st' b = arrays st b)
         \<and> arrays st' out = Some (map Some res)
         \<and> mset res = mset refs
         \<and> orderQuad (map (deref st) refs) = map Some (map (deref st) res)
         \<and> mset (map (deref st) res) = mset (map (deref st) refs)"
proof -
  let ?srt = "sort_key (\<lambda>r. angle_key (centroid_x (deref st) refs) (centroid_y (deref st) refs) (deref st r)) refs"
  let ?k = "start_index (map (deref st) ?srt)"
  let ?res = "ordered_quad (deref st) refs"
  have quad: "pick4 ?srt ?k = map Some ?res"
    unfolding ordered_quad_def Let_def
    by (rule quad_as_rotate) (simp_all add: assms(2) start_index_sorted_lt)
  have run: "\<exists>st'. orderQuad_st a st = Inr (Suc (next_addr st), st')
           \<and> arrays st' = (arrays st)(next_addr st \<mapsto> map Some ?srt,
                                       Suc (next_addr st) \<mapsto> map Some ?res)
           \<and> objects st' = objects st"
    using assms(1,3)
    by (simp add: orderQuad_st_def those_map_Some alloc_array_def Let_def quad)
  then obtain st' where st': "orderQuad_st a st = Inr (Suc (next_addr st), st')"
    "arrays st' = (arrays st)(next_addr st \<mapsto> map Some ?srt,
                              Suc (next_addr st) \<mapsto> map Some ?res)"
    "objects st' = objects st"
    by blast
  have pure: "orderQuad (map (deref st) refs) = map Some (map (deref st) ?res)"
    by (simp add: orderQuad_def orderQuad_on_four assms(2) ordered_quad_map)
  show ?thesis
    apply (rule exI[of _ "Suc (next_addr st)"])
    apply (rule exI[of _ st'])
    apply (rule exI[of _ ?res])
    using assms(1,4) pure st' by simp
qed

theorem orderQuad_keeps_input_witness:
  "arrays demo_store 0 = Some (map Some [1, 2, 3, 4]) \<and> length [1, 2, 3, 4 :: nat] = 4
   \<and> set [1, 2, 3, 4] \<subseteq> dom (objects demo_store) \<and> 0 < next_addr demo_store
   \<and> (\<exists>out st' res.
           orderQuad_st 0 demo_store = Inr (out, st')
         \<and> arrays st' 0 = Some (map Some [1, 2, 3, 4])
         \<and> objects st' = objects demo_store
         \<and> arrays st' out = Some (map Some res)
         \<and> mset res = mset [1, 2, 3, 4])"
proof -
  have h: "arrays demo_store 0 = Some (map Some [1, 2, 3, 4])" "length [1, 2, 3, 4 :: nat] = 4"
    "set [1, 2, 3, 4] \<subseteq> dom (objects demo_store)" "0 < next_addr demo_store"
    by (simp_all add: demo_store_def)
  from orderQuad_keeps_input[OF h] h show ?thesis
    by blast
qed


subsection \<open>Gauss-Jordan inversion and the normal equations\<close>

lemma fold_index_update:
  "k \<le> length row \<Longrightarrow>
   fold (\<lambda>j r. r[j := g j (r ! j)]) [0..<k] row
     = map (\<lambda>j. if j < k then g j (row ! j) else row ! j) [0..<length row]"
proof (induction k)
  case 0
  then show ?case by (simp add: map_nth)
next
  case (Suc k)
  then have IH: "fold (\<lambda>j r. r[j := g j (r ! j)]) [0..<k] row
     = map (\<lambda>j. if j < k then g j (row ! j) else row ! j) [0..<length row]"
    and k: "k < length row" by simp_all
  show ?case
    by (rule nth_equalityI) (simp_all add: IH k nth_list_update less_Suc_eq)
qed

lemma div_row_map: "length row = k \<Longrightarrow> div_row d k row = map (\<lambda>v. v / d) row"
  unfolding div_row_def
  by (subst fold_index_update[where g = "\<lambda>j v. v / d"]) (auto intro: nth_equalityI)

lemma sub_row_map:
  "length row = k \<Longrightarrow> sub_row f rowc k row = map (\<lambda>j. row ! j - f * rowc ! j) [0..<k]"
  unfolding sub_row_def
  by (subst fold_index_update[where g = "\<lambda>j v. v - f * rowc ! j"]) (auto intro: nth_equalityI)

lemma find_pivot_upto:
  fixes a :: matrix
  assumes "c < k"
  shows "c \<le> fold (\<lambda>i r. if \<bar>a ! i ! c\<bar> > \<bar>a ! r ! c\<bar> then i else r) [c + 1..<k] c
       \<and> fold (\<lambda>i r. if \<bar>a ! i ! c\<bar> > \<bar>a ! r ! c\<bar> then i else r) [c + 1..<k] c < k
       \<and> (\<forall>i. c \<le> i \<and> i < k \<longrightarrow>
            \<bar>a ! i ! c\<bar> \<le> \<bar>a ! (fold (\<lambda>i r. if \<bar>a ! i ! c\<bar> > \<bar>a ! r ! c\<bar> then i else r) [c + 1..<k] c) ! c\<bar>)"
  using assms
proof (induction k)
  case 0
  then show ?case by simp
next
  case (Suc k)
  show ?case
  proof (cases "c = k")
    case True
    then show ?thesis by (auto simp: le_less_Suc_eq)
  next
    case False
    with Suc.prems have ck: "c < k" by simp
    let ?g = "\<lambda>i r. if \<bar>a ! i ! c\<bar> > \<bar>a ! r ! c\<bar> then i else r"
    from Suc.IH[OF ck] have IH: "c \<le> fold ?g [c + 1..<k] c" "fold ?g [c + 1..<k] c < k"
      "\<And>i. c \<le> i \<Longrightarrow> i < k \<Longrightarrow> \<bar>a ! i ! c\<bar> \<le> \<bar>a ! (fold ?g [c + 1..<k] c) ! c\<bar>"
      by blast+
    have upt: "[c + 1..<Suc k] = [c + 1..<k] @ [k]" using ck by simp
    show ?thesis
      unfolding upt fold_append comp_def
      using IH ck by (auto simp: less_Suc_eq intro: order_trans less_imp_le)
  qed
qed

lemma find_pivot_props:
  fixes a :: matrix
  assumes "c < n"
  shows "c \<le> find_pivot a n c" "find_pivot a n c < n"
    "\<And>i. c \<le> i \<Longrightarrow> i < n \<Longrightarrow> \<bar>a ! i ! c\<bar> \<le> \<bar>a ! find_pivot a n c ! c\<bar>"
  using find_pivot_upto[OF assms, of a] unfolding find_pivot_def by blast+

lemma eliminate_upto:
  assumes "length a = n" "c < n" "\<forall>i<n. length (a ! i) = 2 * n" "k \<le> n"
  shows "fold (\<lambda>i a. if i \<noteq> c then a[i := sub_row (a ! i ! c) (a ! c) (2 * n) (a ! i)] else a) [0..<k] a
       = map (\<lambda>i. if i < k \<and> i \<noteq> c then map (\<lambda>j. a ! i ! j - a ! i ! c * a ! c ! j) [0..<2 * n]
                   else a ! i) [0..<n]"
  using assms(4)
proof (induction k)
  case 0
  then show ?case using assms(1) by (auto intro: nth_equalityI)
next
  case (Suc k)
  let ?new = "\<lambda>i. map (\<lambda>j. a ! i ! j - a ! i ! c * a ! c ! j) [0..<2 * n]"
  let ?f = "\<lambda>i a. if i \<noteq> c then a[i := sub_row (a ! i ! c) (a ! c) (2 * n) (a ! i)] else a"
  from Suc have IH: "fold ?f [0..<k] a = map (\<lambda>i. if i < k \<and> i \<noteq> c then ?new i else a ! i) [0..<n]"
    and k: "k < n" by simp_all
  have len: "length (a ! k) = 2 * n" using assms(3) k by simp
  show ?case
  proof (cases "k = c")
    case True
    have "fold ?f [0..<Suc k] a = fold ?f [0..<k] a"
      using True by simp
    also note IH
    also have "map (\<lambda>i. if i < k \<and> i \<noteq> c then ?new i else a ! i) [0..<n]
             = map (\<lambda>i. if i < Suc k \<and> i \<noteq> c then ?new i else a ! i) [0..<n]"
      using True by (intro map_cong) (auto simp: less_Suc_eq)
    finally show ?thesis .
  next
    case False
    have "fold ?f [0..<Suc k] a = (fold ?f [0..<k] a)[k := sub_row ((fold ?f [0..<k] a) ! k ! c)
             ((fold ?f [0..<k] a) ! c) (2 * n) ((fold ?f [0..<k] a) ! k)]"
      using False by simp
    also have "\<dots> = (fold ?f [0..<k] a)[k := ?new k]"
      using False k assms(2) len by (simp add: IH sub_row_map)
    also have "\<dots> = map (\<lambda>i. if i < Suc k \<and> i \<noteq> c then ?new i else a ! i) [0..<n]"
      using False k by (auto intro!: nth_equalityI simp: IH nth_list_update less_Suc_eq)
    finally show ?thesis .
  qed
qed

lemma eliminate_map:
  assumes "length a = n" "c < n" "\<forall>i<n. length (a ! i) = 2 * n"
  shows "eliminate n c a
       = map (\<lambda>i. if i \<noteq> c then map (\<lambda>j. a ! i ! j - a ! i ! c * a ! c ! j) [0..<2 * n]
                   else a ! i) [0..<n]"
  unfolding eliminate_def using eliminate_upto[OF assms, of n] by simp

lemma inv_step_rows:
  assumes wf: "wf_aug n a" and c: "c < n"
  shows "inv_step n c a =
     map (\<lambda>i. map (\<lambda>j.
            if i = c then a ! find_pivot a n c ! j / pivot_or_eps (a ! find_pivot a n c ! c)
            else (if i = find_pivot a n c then a ! c else a ! i) ! j
                 - (if i = find_pivot a n c then a ! c else a ! i) ! c
                   * (a ! find_pivot a n c ! j / pivot_or_eps (a ! find_pivot a n c ! c)))
          [0..<2 * n]) [0..<n]"
proof -
  let ?r = "find_pivot a n c"
  let ?d = "pivot_or_eps (a ! ?r ! c)"
  have r: "?r < n" "c \<le> ?r" using find_pivot_props[OF c] by simp_all
  have len: "length a = n" and rows: "\<And>i. i < n \<Longrightarrow> length (a ! i) = 2 * n"
    using wf by (simp_all add: wf_aug_def)
  let ?a1 = "swap_rows a c ?r"
  have a1c: "?a1 ! c = a ! ?r"
    using c r len by (simp add: swap_rows_def nth_list_update)
  have a1i: "?a1 ! i = (if i = ?r then a ! c else a ! i)" if "i < n" "i \<noteq> c" for i
    using that c r len by (simp add: swap_rows_def nth_list_update)
  have len1: "length ?a1 = n" using len by (simp add: swap_rows_def)
  let ?a2 = "?a1[c := div_row ?d (2 * n) (?a1 ! c)]"
  have a2c: "?a2 ! c = map (\<lambda>v. v / ?d) (a ! ?r)"
    using c len1 rows[OF r(1)] by (simp add: a1c div_row_map)
  have a2i: "?a2 ! i = (if i = ?r then a ! c else a ! i)" if "i < n" "i \<noteq> c" for i
    using that len1 by (simp add: a1i)
  have len2: "length ?a2 = n" using len1 by simp
  have rows2: "\<forall>i<n. length (?a2 ! i) = 2 * n"
  proof (intro allI impI)
    fix i assume i: "i < n"
    show "length (?a2 ! i) = 2 * n"
    proof (cases "i = c")
      case True
      then show ?thesis using rows[OF r(1)] by (simp only: a2c length_map)
    next
      case False
      then show ?thesis using a2i[OF i False] rows[OF i] rows[OF c] by (simp split: if_splits)
    qed
  qed
  have "inv_step n c a = eliminate n c ?a2"
    by (simp only: inv_step_def Let_def a1c)
  also have "\<dots> = map (\<lambda>i. if i \<noteq> c
                 then map (\<lambda>j. ?a2 ! i ! j - ?a2 ! i ! c * ?a2 ! c ! j) [0..<2 * n]
                 else ?a2 ! i) [0..<n]"
    by (rule eliminate_map[OF len2 c rows2])
  also have "\<dots> = map (\<lambda>i. map (\<lambda>j.
            if i = c then a ! ?r ! j / ?d
            else (if i = ?r then a ! c else a ! i) ! j
                 - (if i = ?r then a ! c else a ! i) ! c * (a ! ?r ! j / ?d))
          [0..<2 * n]) [0..<n]"
  proof (rule map_cong[OF refl])
    fix i assume "i \<in> set [0..<n]"
    then have i: "i < n" by simp
    show "(if i \<noteq> c then map (\<lambda>j. ?a2 ! i ! j - ?a2 ! i ! c * ?a2 ! c ! j) [0..<2 * n] else ?a2 ! i)
        = map (\<lambda>j. if i = c then a ! ?r ! j / ?d
            else (if i = ?r then a ! c else a ! i) ! j
                 - (if i = ?r then a ! c else a ! i) ! c * (a ! ?r ! j / ?d)) [0..<2 * n]"
    proof (cases "i = c")
      case True
      have "?a2 ! c = map (\<lambda>j. a ! ?r ! j / ?d) [0..<2 * n]"
        unfolding a2c using rows[OF r(1)] by (auto intro: nth_equalityI)
      then show ?thesis using True by simp
    next
      case False
      have "?a2 ! c ! j = a ! ?r ! j / ?d" if "j < 2 * n" for j
        unfolding a2c using rows[OF r(1)] that by simp
      then show ?thesis using False a2i[OF i False] by simp
    qed
  qed
  finally show ?thesis .
qed

lemma inv_step_wf:
  assumes "wf_aug n a" "c < n"
  shows "wf_aug n (inv_step n c a)"
  unfolding inv_step_rows[OF assms] by (simp add: wf_aug_def)

lemma inv_step_entry:
  assumes "wf_aug n a" "c < n" "i < n" "j < 2 * n"
  shows "inv_step n c a ! i ! j =
           (if i = c then a ! find_pivot a n c ! j / pivot_or_eps (a ! find_pivot a n c ! c)
            else (if i = find_pivot a n c then a ! c else a ! i) ! j
                 - (if i = find_pivot a n c then a ! c else a ! i) ! c
                   * (a ! find_pivot a n c ! j / pivot_or_eps (a ! find_pivot a n c ! c)))"
  unfolding inv_step_rows[OF assms(1,2)] using assms(3,4) by simp

lemma augment_entry:
  assumes "wf_mat n n m" "i < n" "j < 2 * n"
  shows "augment m ! i ! j = (if j < n then m ! i ! j else if j = n + i then 1 else 0)"
  using assms
  by (auto simp: augment_def wf_mat_def nth_enumerate_eq nth_append)

lemma augment_wf: "wf_mat n n m \<Longrightarrow> wf_aug n (augment m)"
  by (auto simp: augment_def wf_mat_def wf_aug_def nth_enumerate_eq)

lemma gj_inv_init:
  assumes "wf_mat n n m"
  shows "gj_inv n m 0 (augment m)"
proof -
  have e: "augment m ! i ! j = (if j < n then m ! i ! j else if j = n + i then 1 else 0)"
    if "i < n" "j < 2 * n" for i j
    using augment_entry[OF assms that] .
  have wf: "wf_aug n (augment m)"
    using augment_wf[OF assms] .
  have lin: "augment m ! i ! j = (\<Sum>k<n. augment m ! i ! (n + k) * m ! k ! j)"
    if "i < n" "j < n" for i j
  proof -
    have "(\<Sum>k<n. augment m ! i ! (n + k) * m ! k ! j) = (\<Sum>k<n. (if k = i then 1 else 0) * m ! k ! j)"
      using that by (intro sum.cong refl) (simp add: e)
    also have "\<dots> = (\<Sum>k<n. if k = i then m ! k ! j else 0)"
      by (intro sum.cong refl) simp
    also have "\<dots> = m ! i ! j"
      using that by simp
    finally show ?thesis using that by (simp add: e)
  qed
  have ker: "(\<Sum>j<n. m ! i ! j * x j) = 0"
    if "\<forall>i<n. (\<Sum>j<n. augment m ! i ! j * x j) = 0" "i < n" for x :: "nat \<Rightarrow> real" and i
  proof -
    have "(\<Sum>j<n. augment m ! i ! j * x j) = (\<Sum>j<n. m ! i ! j * x j)"
      using that(2) by (intro sum.cong refl) (simp add: e)
    with that show ?thesis by simp
  qed
  show ?thesis
    unfolding gj_inv_def using wf lin ker by blast
qed

lemma pivot_nonzero:
  assumes inv: "gj_inv n m c a" and c: "c < n" and reg: "regular n m"
  shows "a ! find_pivot a n c ! c \<noteq> 0"
proof
  let ?r = "find_pivot a n c"
  assume z: "a ! ?r ! c = 0"
  have col0: "a ! i ! c = 0" if "c \<le> i" "i < n" for i
    using find_pivot_props(3)[OF c that, of a] z by simp
  have unit: "a ! i ! j = (if i = j then 1 else 0)" if "i < n" "j < c" for i j
    using inv that by (simp add: gj_inv_def)
  define x :: "nat \<Rightarrow> real" where "x j = (if j < c then - (a ! j ! c) else if j = c then 1 else 0)" for j
  have "(\<Sum>j<n. a ! i ! j * x j) = 0" if i: "i < n" for i
  proof -
    have "(\<Sum>j<n. a ! i ! j * x j) = (\<Sum>j<Suc c. a ! i ! j * x j)"
      using c by (intro sum.mono_neutral_right) (auto simp: x_def)
    also have "\<dots> = (\<Sum>j<c. a ! i ! j * x j) + a ! i ! c * x c"
      by simp
    also have "(\<Sum>j<c. a ! i ! j * x j) = (\<Sum>j<c. if j = i then - (a ! i ! c) else 0)"
      using i by (intro sum.cong refl) (auto simp: unit x_def)
    also have "\<dots> = (if i < c then - (a ! i ! c) else 0)"
      by simp
    finally show ?thesis
      using col0[of i] i by (simp add: x_def)
  qed
  with inv have "\<forall>i<n. (\<Sum>j<n. m ! i ! j * x j) = 0"
    unfolding gj_inv_def by blast
  with reg have "x c = 0" using c unfolding regular_def by blast
  then show False by (simp add: x_def)
qed

lemma gj_inv_step:
  assumes inv: "gj_inv n m c a" and c: "c < n" and reg: "regular n m"
  shows "gj_inv n m (Suc c) (inv_step n c a)"
proof -
  let ?r = "find_pivot a n c"
  let ?p = "a ! ?r ! c"
  let ?a' = "inv_step n c a"
  define t where "t i = (if i = ?r then c else i)" for i
  have wf: "wf_aug n a" using inv by (simp add: gj_inv_def)
  have r: "?r < n" "c \<le> ?r" using find_pivot_props[OF c] by simp_all
  have p: "?p \<noteq> 0" by (rule pivot_nonzero[OF inv c reg])
  then have d: "pivot_or_eps ?p = ?p" by (simp add: pivot_or_eps_def or_num_def)
  have t: "t i < n" if "i < n" for i using that c by (simp add: t_def)
  have ent: "?a' ! i ! j = (if i = c then a ! ?r ! j / ?p
                           else a ! t i ! j - a ! t i ! c * (a ! ?r ! j / ?p))"
    if "i < n" "j < 2 * n" for i j
    using inv_step_entry[OF wf c that] by (simp add: d t_def)
  have lin_a: "a ! i ! j = (\<Sum>k<n. a ! i ! (n + k) * m ! k ! j)" if "i < n" "j < n" for i j
    using inv that by (simp add: gj_inv_def)
  have unit_a: "a ! i ! j = (if i = j then 1 else 0)" if "i < n" "j < c" for i j
    using inv that by (simp add: gj_inv_def)
  have ker_a: "(\<Sum>j<n. m ! i ! j * x j) = 0"
    if "\<forall>i<n. (\<Sum>j<n. a ! i ! j * x j) = 0" "i < n" for x i
    using inv that unfolding gj_inv_def by blast

  have lin: "?a' ! i ! j = (\<Sum>k<n. ?a' ! i ! (n + k) * m ! k ! j)" if i: "i < n" and j: "j < n" for i j
  proof (cases "i = c")
    case True
    have "(\<Sum>k<n. ?a' ! i ! (n + k) * m ! k ! j) = (\<Sum>k<n. (a ! ?r ! (n + k) * m ! k ! j) / ?p)"
      using i True by (intro sum.cong refl) (simp add: ent)
    also have "\<dots> = (\<Sum>k<n. a ! ?r ! (n + k) * m ! k ! j) / ?p"
      by (simp add: sum_divide_distrib)
    also have "\<dots> = a ! ?r ! j / ?p"
      using lin_a[OF r(1) j] by simp
    finally show ?thesis using i j True by (simp add: ent)
  next
    case False
    have "(\<Sum>k<n. ?a' ! i ! (n + k) * m ! k ! j)
        = (\<Sum>k<n. a ! t i ! (n + k) * m ! k ! j - (a ! t i ! c / ?p) * (a ! ?r ! (n + k) * m ! k ! j))"
      using i False by (intro sum.cong refl) (simp add: ent algebra_simps)
    also have "\<dots> = (\<Sum>k<n. a ! t i ! (n + k) * m ! k ! j)
                    - (a ! t i ! c / ?p) * (\<Sum>k<n. a ! ?r ! (n + k) * m ! k ! j)"
      by (simp add: sum_subtractf sum_distrib_left)
    also have "\<dots> = a ! t i ! j - (a ! t i ! c / ?p) * a ! ?r ! j"
      using lin_a[OF t[OF i] j] lin_a[OF r(1) j] by simp
    finally show ?thesis using i j False by (simp add: ent)
  qed

  have unit: "?a' ! i ! j = (if i = j then 1 else 0)" if i: "i < n" and j: "j < Suc c" for i j
  proof (cases "j = c")
    case True
    show ?thesis
    proof (cases "i = c")
      case True
      then show ?thesis using \<open>j = c\<close> i c p by (simp add: ent)
    next
      case False
      then show ?thesis using \<open>j = c\<close> i c p by (simp add: ent)
    qed
  next
    case False
    with j have jc: "j < c" by simp
    have rj: "a ! ?r ! j = 0" using unit_a[OF r(1) jc] r(2) jc by simp
    show ?thesis
    proof (cases "i = c")
      case True
      then show ?thesis using i jc c rj by (simp add: ent)
    next
      case ic: False
      have "a ! t i ! j = (if i = j then 1 else 0)"
      proof (cases "i = ?r")
        case True
        then show ?thesis using unit_a[OF c jc] jc r(2) by (simp add: t_def)
      next
        case False
        then show ?thesis using unit_a[OF i jc] by (simp add: t_def)
      qed
      then show ?thesis using i jc c rj ic by (simp add: ent)
    qed
  qed

  have ker: "(\<Sum>j<n. m ! i ! j * x j) = 0"
    if z: "\<forall>i<n. (\<Sum>j<n. ?a' ! i ! j * x j) = 0" and i: "i < n" for x i
  proof -
    have rowc: "(\<Sum>j<n. a ! ?r ! j * x j) = 0"
    proof -
      have "(\<Sum>j<n. ?a' ! c ! j * x j) = (\<Sum>j<n. (a ! ?r ! j * x j) / ?p)"
        using c by (intro sum.cong refl) (simp add: ent)
      also have "\<dots> = (\<Sum>j<n. a ! ?r ! j * x j) / ?p"
        by (simp add: sum_divide_distrib)
      finally show ?thesis using z c p by simp
    qed
    have rowt: "(\<Sum>j<n. a ! t k ! j * x j) = 0" if k: "k < n" "k \<noteq> c" for k
    proof -
      have "(\<Sum>j<n. ?a' ! k ! j * x j)
          = (\<Sum>j<n. a ! t k ! j * x j - (a ! t k ! c / ?p) * (a ! ?r ! j * x j))"
        using k by (intro sum.cong refl) (simp add: ent algebra_simps)
      also have "\<dots> = (\<Sum>j<n. a ! t k ! j * x j) - (a ! t k ! c / ?p) * (\<Sum>j<n. a ! ?r ! j * x j)"
        by (simp add: sum_subtractf sum_distrib_left)
      finally show ?thesis using z k rowc by simp
    qed
    have "(\<Sum>j<n. a ! k ! j * x j) = 0" if k: "k < n" for k
    proof (cases "k = ?r")
      case True
      then show ?thesis using rowc by simp
    next
      case False
      show ?thesis
      proof (cases "k = c")
        case True
        with False have "t ?r = k" "?r \<noteq> c" by (simp_all add: t_def)
        with rowt[OF r(1)] show ?thesis by simp
      next
        case kc: False
        with False have "t k = k" by (simp add: t_def)
        with rowt[OF k kc] show ?thesis by simp
      qed
    qed
    with ker_a[of x i] i show ?thesis by blast
  qed
  show ?thesis
    unfolding gj_inv_def using inv_step_wf[OF wf c] lin unit ker by blast
qed

lemma sum_delta_left:
  "j < n \<Longrightarrow> (\<Sum>k<n. (if j = k then 1 else 0) * f k) = (f j :: real)" for n :: nat
proof -
  assume j: "j < n"
  have "(\<Sum>k<n. (if j = k then 1 else 0) * f k) = (\<Sum>k<n. if k = j then f k else 0)"
    by (intro sum.cong refl) auto
  also have "\<dots> = f j" using j by simp
  finally show ?thesis .
qed

lemma sum_delta_right:
  "j < n \<Longrightarrow> (\<Sum>k<n. f k * (if k = j then 1 else 0)) = (f j :: real)" for n :: nat
proof -
  assume j: "j < n"
  have "(\<Sum>k<n. f k * (if k = j then 1 else 0)) = (\<Sum>k<n. if k = j then f k else 0)"
    by (intro sum.cong refl) auto
  also have "\<dots> = f j" using j by simp
  finally show ?thesis .
qed

lemma gj_inv_fold:
  assumes "wf_mat n n m" "regular n m" "k \<le> n"
  shows "gj_inv n m k (fold (inv_step n) [0..<k] (augment m))"
  using assms(3)
proof (induction k)
  case 0
  then show ?case by (simp add: gj_inv_init[OF assms(1)])
next
  case (Suc k)
  then have "gj_inv n m k (fold (inv_step n) [0..<k] (augment m))" "k < n" by simp_all
  from gj_inv_step[OF this assms(2)] show ?case by simp
qed

lemma foldl_enumerate_sum:
  "foldl (\<lambda>s kv. s + snd kv * g (fst kv)) s0 (enumerate b r)
     = s0 + (\<Sum>k<length r. r ! k * g (b + k))" for s0 :: real
proof (induction r arbitrary: s0 b)
  case Nil
  then show ?case by simp
next
  case (Cons v r)
  show ?case
    by (simp add: Cons.IH sum.lessThan_Suc_shift del: sum.lessThan_Suc)
qed

lemma mul_entry:
  assumes "i < length m" "j < length (n ! 0)"
  shows "mul m n ! i ! j = (\<Sum>k<length (m ! i). m ! i ! k * n ! k ! j)"
  using assms foldl_enumerate_sum[of "\<lambda>k. n ! k ! j" 0 0 "m ! i"]
  by (simp add: mul_def)

lemma mul_wf:
  assumes "wf_mat r k m" "wf_mat k c n" "0 < k"
  shows "wf_mat r c (mul m n)"
  using assms by (simp add: wf_mat_def mul_def)

lemma mul_ident_entries:
  assumes "wf_mat n n P" "wf_mat n n Q" "mul P Q = ident n" "i < n" "j < n"
  shows "(\<Sum>k<n. P ! i ! k * Q ! k ! j) = (if i = j then 1 else 0)"
proof -
  have "0 < n" using assms(4) by simp
  then have "length (Q ! 0) = n" "length P = n" "length (P ! i) = n"
    using assms(1,2,4) by (simp_all add: wf_mat_def)
  with mul_entry[of i P j Q] assms(4,5) have "mul P Q ! i ! j = (\<Sum>k<n. P ! i ! k * Q ! k ! j)"
    by simp
  then show ?thesis using assms(3,4,5) by (simp add: ident_def)
qed

lemma regular_left_inverse:
  assumes "wf_mat n n m" "wf_mat n n N" "mul N m = ident n"
  shows "regular n m"
  unfolding regular_def
proof (intro allI impI)
  fix x :: "nat \<Rightarrow> real" and j
  assume z: "\<forall>i<n. (\<Sum>j<n. m ! i ! j * x j) = 0" and j: "j < n"
  have "x j = (\<Sum>k<n. (if j = k then 1 else 0) * x k)"
    using j by (simp only: sum_delta_left)
  also have "\<dots> = (\<Sum>k<n. (\<Sum>i<n. N ! j ! i * m ! i ! k) * x k)"
    using j by (intro sum.cong refl) (simp add: mul_ident_entries[OF assms(2,1,3)])
  also have "\<dots> = (\<Sum>k<n. \<Sum>i<n. N ! j ! i * (m ! i ! k * x k))"
    by (simp add: sum_distrib_right mult.assoc)
  also have "\<dots> = (\<Sum>i<n. \<Sum>k<n. N ! j ! i * (m ! i ! k * x k))"
    by (rule sum.swap)
  also have "\<dots> = (\<Sum>i<n. N ! j ! i * (\<Sum>k<n. m ! i ! k * x k))"
    by (simp add: sum_distrib_left)
  also have "\<dots> = 0"
    using z by simp
  finally show "x j = 0" .
qed

lemma gj_inv_final:
  assumes inv: "gj_inv n m n a" and N: "wf_mat n n N" and m: "wf_mat n n m"
    and right: "mul m N = ident n"
  shows "map (drop n) a = N"
proof -
  have wf: "length a = n" "\<And>i. i < n \<Longrightarrow> length (a ! i) = 2 * n"
    using inv by (simp_all add: gj_inv_def wf_aug_def)
  have lin: "(\<Sum>k<n. a ! i ! (n + k) * m ! k ! j) = (if i = j then 1 else 0)" if "i < n" "j < n" for i j
    using inv that unfolding gj_inv_def by (metis (no_types, lifting))
  have ent: "a ! i ! (n + j) = N ! i ! j" if i: "i < n" and j: "j < n" for i j
  proof -
    have "a ! i ! (n + j) = (\<Sum>l<n. a ! i ! (n + l) * (if l = j then 1 else 0))"
      using j by (simp only: sum_delta_right[where f = "\<lambda>l. a ! i ! (n + l)"])
    also have "\<dots> = (\<Sum>l<n. a ! i ! (n + l) * (\<Sum>k<n. m ! l ! k * N ! k ! j))"
      using j by (intro sum.cong refl) (simp add: mul_ident_entries[OF m N right])
    also have "\<dots> = (\<Sum>l<n. \<Sum>k<n. (a ! i ! (n + l) * m ! l ! k) * N ! k ! j)"
      by (simp add: sum_distrib_left mult.assoc)
    also have "\<dots> = (\<Sum>k<n. \<Sum>l<n. (a ! i ! (n + l) * m ! l ! k) * N ! k ! j)"
      by (rule sum.swap)
    also have "\<dots> = (\<Sum>k<n. (\<Sum>l<n. a ! i ! (n + l) * m ! l ! k) * N ! k ! j)"
      by (simp add: sum_distrib_right)
    also have "\<dots> = (\<Sum>k<n. (if i = k then 1 else 0) * N ! k ! j)"
      using i by (intro sum.cong refl) (simp add: lin)
    also have "\<dots> = N ! i ! j"
      using i by (simp only: sum_delta_left[where f = "\<lambda>k. N ! k ! j"])
    finally show ?thesis .
  qed
  show ?thesis
  proof (rule nth_equalityI)
    show "length (map (drop n) a) = length N" using wf N by (simp add: wf_mat_def)
  next
    fix i assume "i < length (map (drop n) a)"
    then have i: "i < n" using wf by simp
    have "drop n (a ! i) = N ! i"
      using wf(2)[OF i] N i by (intro nth_equalityI) (simp_all add: wf_mat_def ent)
    then show "map (drop n) a ! i = N ! i" using i wf by simp
  qed
qed

lemma inv_correct:
  assumes "wf_mat n n m" "wf_mat n n N" "mul N m = ident n" "mul m N = ident n"
  shows "inv m = N"
proof -
  have n: "length m = n" using assms(1) by (simp add: wf_mat_def)
  have "gj_inv n m n (fold (inv_step n) [0..<n] (augment m))"
    by (rule gj_inv_fold[OF assms(1) regular_left_inverse[OF assms(1,2,3)] le_refl])
  from gj_inv_final[OF this assms(2,1,4)] show ?thesis
    by (simp add: inv_def n)
qed

lemma upt_0_4: "[0..<4] = [0, 1, 2, 3 :: nat]"
  by (simp add: upt_rec)

lemma build_A_rows:
  "build_A from =
     [[px (from ! 0), py (from ! 0), 1, 0, 0, 0], [0, 0, 0, px (from ! 0), py (from ! 0), 1],
      [px (from ! 1), py (from ! 1), 1, 0, 0, 0], [0, 0, 0, px (from ! 1), py (from ! 1), 1],
      [px (from ! 2), py (from ! 2), 1, 0, 0, 0], [0, 0, 0, px (from ! 2), py (from ! 2), 1],
      [px (from ! 3), py (from ! 3), 1, 0, 0, 0], [0, 0, 0, px (from ! 3), py (from ! 3), 1]]"
  by (simp add: build_A_def upt_0_4)

lemma build_B_entries:
  "build_B to = [px (to ! 0), py (to ! 0), px (to ! 1), py (to ! 1),
                 px (to ! 2), py (to ! 2), px (to ! 3), py (to ! 3)]"
  by (simp add: build_B_def upt_0_4)

lemma build_A_wf: "wf_mat 8 6 (build_A from)"
  unfolding build_A_rows wf_mat_def
  by (simp add: All_less_Suc numeral_eq_Suc)

lemma build_B_length: "length (build_B to) = 8"
  by (simp add: build_B_entries)

lemma AT_entry:
  assumes "wf_mat r c m" "0 < r" "j < c" "i < r"
  shows "AT m ! j ! i = m ! i ! j"
  using assms by (simp add: AT_def wf_mat_def)

lemma AT_wf:
  assumes "wf_mat r c m" "0 < r"
  shows "wf_mat c r (AT m)"
  using assms by (simp add: AT_def wf_mat_def)

lemma mat_eqI:
  assumes "wf_mat r c P" "wf_mat r c Q" "\<And>i j. i < r \<Longrightarrow> j < c \<Longrightarrow> P ! i ! j = Q ! i ! j"
  shows "P = Q"
proof (rule nth_equalityI)
  show "length P = length Q" using assms(1,2) by (simp add: wf_mat_def)
next
  fix i assume "i < length P"
  then have i: "i < r" using assms(1) by (simp add: wf_mat_def)
  show "P ! i = Q ! i"
    using assms i by (intro nth_equalityI) (simp_all add: wf_mat_def)
qed

lemma ident_wf: "wf_mat n n (ident n)"
  by (simp add: ident_def wf_mat_def)

lemma mul_entry_wf:
  assumes "wf_mat r k P" "wf_mat k c Q" "0 < k" "i < r" "j < c"
  shows "mul P Q ! i ! j = (\<Sum>l<k. P ! i ! l * Q ! l ! j)"
  using mul_entry[of i P j Q] assms by (simp add: wf_mat_def)

lemma normal_matrix:
  "wf_mat 6 6 (mul (AT (build_A from)) (build_A from))"
  "\<And>i j. i < 6 \<Longrightarrow> j < 6 \<Longrightarrow>
     mul (AT (build_A from)) (build_A from) ! i ! j = gram (build_A from) i j"
proof -
  have A: "wf_mat 8 6 (build_A from)" by (rule build_A_wf)
  have T: "wf_mat 6 8 (AT (build_A from))" by (rule AT_wf[OF A]) simp
  show "wf_mat 6 6 (mul (AT (build_A from)) (build_A from))"
    by (rule mul_wf[OF T A]) simp
  fix i j :: nat assume ij: "i < 6" "j < 6"
  have "mul (AT (build_A from)) (build_A from) ! i ! j
      = (\<Sum>l<8. AT (build_A from) ! i ! l * build_A from ! l ! j)"
    by (rule mul_entry_wf[OF T A _ ij]) simp
  also have "\<dots> = (\<Sum>l<8. build_A from ! l ! i * build_A from ! l ! j)"
    using ij by (intro sum.cong refl) (simp add: AT_entry[OF A])
  finally show "mul (AT (build_A from)) (build_A from) ! i ! j = gram (build_A from) i j"
    using A by (simp add: gram_def wf_mat_def)
qed

lemma inv_normal_matrix:
  assumes "inverse_of 6 N (gram (build_A from))"
  shows "inv (mul (AT (build_A from)) (build_A from)) = N"
proof -
  let ?G = "mul (AT (build_A from)) (build_A from)"
  have N: "wf_mat 6 6 N" using assms by (simp add: inverse_of_def)
  have G: "wf_mat 6 6 ?G" by (rule normal_matrix(1))
  have left: "mul N ?G = ident 6"
  proof (rule mat_eqI[OF mul_wf[OF N G] ident_wf])
    show "0 < (6::nat)" by simp
    fix i j :: nat assume ij: "i < 6" "j < 6"
    have "mul N ?G ! i ! j = (\<Sum>l<6. N ! i ! l * ?G ! l ! j)"
      by (rule mul_entry_wf[OF N G _ ij]) simp
    also have "\<dots> = (\<Sum>l<6. N ! i ! l * gram (build_A from) l j)"
      using ij by (intro sum.cong refl) (simp add: normal_matrix(2))
    also have "\<dots> = (if i = j then 1 else 0)"
      using assms ij by (simp add: inverse_of_def)
    finally show "mul N ?G ! i ! j = ident 6 ! i ! j"
      using ij by (simp add: ident_def)
  qed
  have right: "mul ?G N = ident 6"
  proof (rule mat_eqI[OF mul_wf[OF G N] ident_wf])
    show "0 < (6::nat)" by simp
    fix i j :: nat assume ij: "i < 6" "j < 6"
    have "mul ?G N ! i ! j = (\<Sum>l<6. ?G ! i ! l * N ! l ! j)"
      by (rule mul_entry_wf[OF G N _ ij]) simp
    also have "\<dots> = (\<Sum>l<6. gram (build_A from) i l * N ! l ! j)"
      using ij by (intro sum.cong refl) (simp add: normal_matrix(2))
    also have "\<dots> = (if i = j then 1 else 0)"
      using assms ij by (simp add: inverse_of_def)
    finally show "mul ?G N ! i ! j = ident 6 ! i ! j"
      using ij by (simp add: ident_def)
  qed
  show ?thesis by (rule inv_correct[OF G N left right])
qed

lemma solve_params_entry:
  assumes "inverse_of 6 N (gram (build_A from))" "i < 6"
  shows "solve_params from to ! i = (\<Sum>j<6. N ! i ! j * moment (build_A from) (build_B to) j)"
    and "length (solve_params from to) = 6"
proof -
  let ?A = "build_A from" and ?B = "build_B to"
  let ?C = "map (\<lambda>v. [v]) ?B"
  have N: "wf_mat 6 6 N" using assms by (simp add: inverse_of_def)
  have A: "wf_mat 8 6 ?A" by (rule build_A_wf)
  have T: "wf_mat 6 8 (AT ?A)" by (rule AT_wf[OF A]) simp
  have C: "wf_mat 8 1 ?C" by (simp add: wf_mat_def build_B_length)
  have TC: "wf_mat 6 1 (mul (AT ?A) ?C)" by (rule mul_wf[OF T C]) simp
  have tc: "mul (AT ?A) ?C ! j ! 0 = moment ?A ?B j" if "j < 6" for j
  proof -
    have "mul (AT ?A) ?C ! j ! 0 = (\<Sum>l<8. AT ?A ! j ! l * ?C ! l ! 0)"
      by (rule mul_entry_wf[OF T C _ that]) simp_all
    also have "\<dots> = (\<Sum>l<8. ?A ! l ! j * ?B ! l)"
      using that by (intro sum.cong refl) (simp add: AT_entry[OF A] build_B_length)
    finally show ?thesis using A by (simp add: moment_def wf_mat_def)
  qed
  have X: "solve_params from to = map (\<lambda>r. r ! 0) (mul N (mul (AT ?A) ?C))"
    by (simp add: solve_params_def Let_def inv_normal_matrix[OF assms(1)])
  have NTC: "wf_mat 6 1 (mul N (mul (AT ?A) ?C))" by (rule mul_wf[OF N TC]) simp
  then show "length (solve_params from to) = 6" by (simp add: X wf_mat_def)
  have "solve_params from to ! i = mul N (mul (AT ?A) ?C) ! i ! 0"
    using NTC assms(2) by (simp add: X wf_mat_def)
  also have "\<dots> = (\<Sum>l<6. N ! i ! l * mul (AT ?A) ?C ! l ! 0)"
    by (rule mul_entry_wf[OF N TC _ assms(2)]) simp_all
  also have "\<dots> = (\<Sum>j<6. N ! i ! j * moment ?A ?B j)"
    by (intro sum.cong refl) (simp add: tc)
  finally show "solve_params from to ! i = (\<Sum>j<6. N ! i ! j * moment ?A ?B j)" .
qed

lemma solveAffine_inverse:
  assumes "length from = 4" "length to = 4" "inverse_of 6 N (gram (build_A from))"
  shows "solveAffine from to
       = Inr (affine_of (\<lambda>i. \<Sum>j<6. N ! i ! j * moment (build_A from) (build_B to) j))"
  using assms(1,2) solve_params_entry(1)[OF assms(3), of _ to]
  by (simp add: solveAffine_def Let_def affine_of_def)

lemma residual_design:
  "sq_residual from to (affine_of Y)
     = (\<Sum>r<8. ((\<Sum>j<6. build_A from ! r ! j * Y j) - build_B to ! r)\<^sup>2)"
  unfolding sq_residual_def build_A_rows build_B_entries affine_of_def
  by (simp add: eval_nat_numeral algebra_simps)

lemma normal_equations_minimal:
  fixes A :: matrix and B :: "real list" and X Y :: "nat \<Rightarrow> real"
  assumes ne: "\<And>j. j < n \<Longrightarrow> (\<Sum>k<n. (\<Sum>r<R. A ! r ! j * A ! r ! k) * X k) = (\<Sum>r<R. A ! r ! j * B ! r)"
  shows "(\<Sum>r<R. ((\<Sum>j<n. A ! r ! j * X j) - B ! r)\<^sup>2)
       \<le> (\<Sum>r<R. ((\<Sum>j<n. A ! r ! j * Y j) - B ! r)\<^sup>2)"
proof -
  define e where "e r = (\<Sum>j<n. A ! r ! j * X j) - B ! r" for r
  define u where "u r = (\<Sum>j<n. A ! r ! j * (Y j - X j))" for r
  have orth: "(\<Sum>r<R. A ! r ! j * e r) = 0" if j: "j < n" for j
  proof -
    have "(\<Sum>r<R. A ! r ! j * e r)
        = (\<Sum>r<R. \<Sum>k<n. A ! r ! j * A ! r ! k * X k) - (\<Sum>r<R. A ! r ! j * B ! r)"
      by (simp add: e_def algebra_simps sum_subtractf sum_distrib_left)
    also have "(\<Sum>r<R. \<Sum>k<n. A ! r ! j * A ! r ! k * X k)
             = (\<Sum>k<n. \<Sum>r<R. A ! r ! j * A ! r ! k * X k)"
      by (rule sum.swap)
    also have "\<dots> = (\<Sum>k<n. (\<Sum>r<R. A ! r ! j * A ! r ! k) * X k)"
      by (simp add: sum_distrib_right)
    finally show ?thesis using ne[OF j] by simp
  qed
  have "u r * e r = (\<Sum>j<n. (Y j - X j) * (A ! r ! j * e r))" for r
    unfolding u_def sum_distrib_right by (rule sum.cong[OF refl]) (simp add: mult_ac)
  then have "(\<Sum>r<R. u r * e r) = (\<Sum>r<R. \<Sum>j<n. (Y j - X j) * (A ! r ! j * e r))"
    by simp
  also have "\<dots> = (\<Sum>j<n. \<Sum>r<R. (Y j - X j) * (A ! r ! j * e r))"
    by (rule sum.swap)
  also have "\<dots> = (\<Sum>j<n. (Y j - X j) * (\<Sum>r<R. A ! r ! j * e r))"
    by (simp add: sum_distrib_left)
  also have "\<dots> = 0"
    by (simp add: orth)
  finally have cross: "(\<Sum>r<R. u r * e r) = 0" .
  have "(\<Sum>j<n. A ! r ! j * Y j) - B ! r = u r + e r" for r
    by (simp add: u_def e_def algebra_simps sum_subtractf)
  then have "(\<Sum>r<R. ((\<Sum>j<n. A ! r ! j * Y j) - B ! r)\<^sup>2) = (\<Sum>r<R. (u r + e r)\<^sup>2)"
    by simp
  also have "\<dots> = (\<Sum>r<R. (u r)\<^sup>2) + 2 * (\<Sum>r<R. u r * e r) + (\<Sum>r<R. (e r)\<^sup>2)"
    by (simp add: power2_sum sum.distrib sum_distrib_left algebra_simps)
  also have "\<dots> = (\<Sum>r<R. (u r)\<^sup>2) + (\<Sum>r<R. (e r)\<^sup>2)"
    by (simp add: cross)
  finally have "(\<Sum>r<R. ((\<Sum>j<n. A ! r ! j * Y j) - B ! r)\<^sup>2)
              = (\<Sum>r<R. (u r)\<^sup>2) + (\<Sum>r<R. (e r)\<^sup>2)" .
  moreover have "0 \<le> (\<Sum>r<R. (u r)\<^sup>2)" by (intro sum_nonneg) simp
  ultimately show ?thesis by (simp add: e_def)
qed

lemma inverse_normal_equations:
  assumes "inverse_of n N G" "j < n"
  shows "(\<Sum>k<n. G j k * (\<Sum>l<n. N ! k ! l * v l)) = v j"
proof -
  have "(\<Sum>k<n. G j k * (\<Sum>l<n. N ! k ! l * v l)) = (\<Sum>k<n. \<Sum>l<n. (G j k * N ! k ! l) * v l)"
    by (simp add: sum_distrib_left mult.assoc)
  also have "\<dots> = (\<Sum>l<n. \<Sum>k<n. (G j k * N ! k ! l) * v l)"
    by (rule sum.swap)
  also have "\<dots> = (\<Sum>l<n. (\<Sum>k<n. G j k * N ! k ! l) * v l)"
    by (simp add: sum_distrib_right)
  also have "\<dots> = (\<Sum>l<n. (if j = l then 1 else 0) * v l)"
    using assms by (intro sum.cong refl) (simp add: inverse_of_def)
  also have "\<dots> = v j"
    using assms(2) by (simp only: sum_delta_left)
  finally show ?thesis .
qed

lemma affine_of_surj: "q = affine_of (\<lambda>i. [aff_a q, aff_b q, aff_c q, aff_d q, aff_e q, aff_f q] ! i)"
  by (simp add: affine_of_def)

lemma solveAffine_minimal:
  assumes "inverse_of 6 N (gram (build_A from))"
  shows "sq_residual from to (affine_of (\<lambda>i. \<Sum>j<6. N ! i ! j * moment (build_A from) (build_B to) j))
       \<le> sq_residual from to q"
proof -
  let ?X = "\<lambda>i. \<Sum>j<6. N ! i ! j * moment (build_A from) (build_B to) j"
  let ?Y = "\<lambda>i. [aff_a q, aff_b q, aff_c q, aff_d q, aff_e q, aff_f q] ! i"
  have len: "length (build_A from) = 8" using build_A_wf[of "from"] by (simp add: wf_mat_def)
  have ne: "(\<Sum>k<6. (\<Sum>r<8. build_A from ! r ! j * build_A from ! r ! k) * ?X k)
          = (\<Sum>r<8. build_A from ! r ! j * build_B to ! r)" if "j < 6" for j
    using inverse_normal_equations[OF assms that, of "moment (build_A from) (build_B to)"]
    by (simp add: gram_def moment_def len)
  have "sq_residual from to (affine_of ?X) \<le> sq_residual from to (affine_of ?Y)"
    unfolding residual_design by (rule normal_equations_minimal[OF ne])
  then show ?thesis
    by (simp only: affine_of_surj[symmetric])
qed

lemma four_list:
  assumes "length xs = 4"
  shows "xs = [xs ! 0, xs ! 1, xs ! 2, xs ! 3]"
  using assms by (auto simp: list_eq_iff_nth_eq less_Suc_eq numeral_eq_Suc nth_Cons')

lemma build_A_design: "length from = 4 \<Longrightarrow> build_A from = design_matrix from"
  by (subst (2) four_list) (simp_all add: build_A_rows design_matrix_def)

lemma build_B_target: "length to = 4 \<Longrightarrow> build_B to = target_vector to"
  by (subst (2) four_list) (simp_all add: build_B_entries target_vector_def)

text \<open>
  C1. Let \<open>A\<close> be the design matrix of four source points (for each correspondence the
  rows \<open>[x, y, 1, 0, 0, 0]\<close> and \<open>[0, 0, 0, x, y, 1]\<close>) and \<open>B\<close> the vector of the target
  coordinates. If the 6 by 6 matrix \<open>A\<^sup>tA\<close> (\<open>gram A\<close>) has an inverse \<open>N\<close>, then
  \<open>solveAffine\<close> returns exactly the parameters \<open>N (A\<^sup>tB)\<close>: the Gauss-Jordan loop never
  meets a zero pivot and computes \<open>N\<close>. These parameters minimise the total squared
  residual of \<open>X = a x + b y + c\<close>, \<open>Y = d x + e y + f\<close> over the four correspondences.
\<close>

theorem solveAffine_least_squares:
  assumes "length from = 4" and "length to = 4"
    and "inverse_of 6 N (gram (design_matrix from))"
  shows "solveAffine from to
           = Inr (affine_of (\<lambda>i. \<Sum>j<6. N ! i ! j * moment (design_matrix from) (target_vector to) j))
       \<and> (\<forall>q. sq_residual from to
                 (affine_of (\<lambda>i. \<Sum>j<6. N ! i ! j * moment (design_matrix from) (target_vector to) j))
               \<le> sq_residual from to q)"
proof -
  have inv: "inverse_of 6 N (gram (build_A from))"
    using assms(3) by (simp add: build_A_design[OF assms(1)])
  show ?thesis
    using solveAffine_inverse[OF assms(1,2) inv] solveAffine_minimal[OF inv, of to]
    by (simp add: build_A_design[OF assms(1)] build_B_target[OF assms(2)])
qed

lemma gram_square:
  "gram (design_matrix (src_corners 2 2)) i j = (if i = j \<and> i < 6 then 4 else 0)" if "i < 6" "j < 6"
proof -
  have "i \<in> {0,1,2,3,4,5}" "j \<in> {0,1,2,3,4,5}" using that by auto
  then show ?thesis
    by (auto simp: gram_def design_matrix_def src_corners_def eval_nat_numeral)
qed

lemma quarter_ident_inverse: "inverse_of 6 quarter_ident (gram (design_matrix (src_corners 2 2)))"
proof -
  have wf: "wf_mat 6 6 quarter_ident"
    by (simp add: wf_mat_def quarter_ident_def)
  have q: "quarter_ident ! i ! j = (if i = j then 1 / 4 else 0)" if "i < 6" "j < 6" for i j
    using that by (simp add: quarter_ident_def)
  have 1: "(\<Sum>k<6. quarter_ident ! i ! k * gram (design_matrix (src_corners 2 2)) k j) = (if i = j then 1 else 0)"
    if ij: "i < 6" "j < 6" for i j
  proof -
    have "(\<Sum>k<6. quarter_ident ! i ! k * gram (design_matrix (src_corners 2 2)) k j)
        = (\<Sum>k<6. (if i = k then 1 else 0) * (if k = j then 1 else 0))"
      using ij by (intro sum.cong refl) (simp add: q gram_square)
    also have "\<dots> = (if i = j then 1 else 0)"
      using ij by (simp only: sum_delta_left[where f = "\<lambda>k. if k = j then 1 else 0"])
    finally show ?thesis .
  qed
  have 2: "(\<Sum>k<6. gram (design_matrix (src_corners 2 2)) i k * quarter_ident ! k ! j) = (if i = j then 1 else 0)"
    if ij: "i < 6" "j < 6" for i j
  proof -
    have "(\<Sum>k<6. gram (design_matrix (src_corners 2 2)) i k * quarter_ident ! k ! j)
        = (\<Sum>k<6. (if i = k then 1 else 0) * (if k = j then 1 else 0))"
      using ij by (intro sum.cong refl) (simp add: q gram_square)
    also have "\<dots> = (if i = j then 1 else 0)"
      using ij by (simp only: sum_delta_left[where f = "\<lambda>k. if k = j then 1 else 0"])
    finally show ?thesis .
  qed
  show ?thesis unfolding inverse_of_def using wf 1 2 by blast
qed

theorem solveAffine_least_squares_witness:
  "length (src_corners 2 2) = 4 \<and> length shifted_square = 4
   \<and> inverse_of 6 quarter_ident (gram (design_matrix (src_corners 2 2)))
   \<and> solveAffine (src_corners 2 2) shifted_square
       = Inr \<lparr>aff_a = 1, aff_b = 0, aff_c = 5, aff_d = 0, aff_e = 1, aff_f = 7\<rparr>
   \<and> (\<forall>q. sq_residual (src_corners 2 2) shifted_square
             \<lparr>aff_a = 1, aff_b = 0, aff_c = 5, aff_d = 0, aff_e = 1, aff_f = 7\<rparr>
           \<le> sq_residual (src_corners 2 2) shifted_square q)"
proof -
  have h: "length (src_corners 2 2) = 4" "length shifted_square = 4"
    by (simp_all add: src_corners_def shifted_square_def)
  have val: "affine_of (\<lambda>i. \<Sum>j<6. quarter_ident ! i ! j
                * moment (design_matrix (src_corners 2 2)) (target_vector shifted_square) j)
           = \<lparr>aff_a = 1, aff_b = 0, aff_c = 5, aff_d = 0, aff_e = 1, aff_f = 7\<rparr>"
    by (simp add: affine_of_def quarter_ident_def moment_def design_matrix_def target_vector_def
          src_corners_def shifted_square_def eval_nat_numeral)
  from solveAffine_least_squares[OF h quarter_ident_inverse] h quarter_ident_inverse
  show ?thesis unfolding val by blast
qed

subsection \<open>An exact similarity is recovered\<close>

lemma sqrt_sum_squares_scaled:
  fixes u v :: real
  assumes "u \<noteq> 0"
  shows "sqrt (u\<^sup>2 + v\<^sup>2) = \<bar>u\<bar> * sqrt (1 + (v / u)\<^sup>2)"
proof -
  have "u\<^sup>2 + v\<^sup>2 = u\<^sup>2 * (1 + (v / u)\<^sup>2)"
    using assms by (simp add: field_simps power2_eq_square)
  then show ?thesis
    by (simp add: real_sqrt_mult)
qed

lemma atan2_cos_sin:
  assumes "u \<noteq> 0 \<or> v \<noteq> 0"
  shows "cos (atan2 v u) = u / sqrt (u\<^sup>2 + v\<^sup>2)"
    and "sin (atan2 v u) = v / sqrt (u\<^sup>2 + v\<^sup>2)"
proof -
  have pos: "0 < sqrt (1 + (v / u)\<^sup>2)"
    by (simp add: add_pos_nonneg)
  consider "0 < u" | "u < 0" "0 \<le> v" | "u < 0" "v < 0" | "u = 0" "0 < v" | "u = 0" "v < 0"
    using assms by linarith
  then have "cos (atan2 v u) = u / sqrt (u\<^sup>2 + v\<^sup>2) \<and> sin (atan2 v u) = v / sqrt (u\<^sup>2 + v\<^sup>2)"
  proof cases
    case 1
    then show ?thesis
      using pos by (simp add: atan2_def cos_arctan sin_arctan sqrt_sum_squares_scaled field_simps)
  next
    case 2
    then show ?thesis
      using pos by (simp add: atan2_def cos_arctan sin_arctan sqrt_sum_squares_scaled field_simps)
  next
    case 3
    then show ?thesis
      using pos by (simp add: atan2_def cos_arctan sin_arctan sqrt_sum_squares_scaled
          cos_diff sin_diff field_simps)
  next
    case 4
    then show ?thesis by (simp add: atan2_def)
  next
    case 5
    then show ?thesis by (simp add: atan2_def)
  qed
  then show "cos (atan2 v u) = u / sqrt (u\<^sup>2 + v\<^sup>2)" "sin (atan2 v u) = v / sqrt (u\<^sup>2 + v\<^sup>2)"
    by simp_all
qed

lemma polar_norm:
  "(s * cos t) * (s * cos t) + (s * sin t) * (s * sin t) = (s * s :: real)"
proof -
  have "(s * cos t) * (s * cos t) + (s * sin t) * (s * sin t)
      = s * s * ((sin t)\<^sup>2 + (cos t)\<^sup>2)"
    by (simp only: power2_eq_square) (simp only: algebra_simps)
  also have "\<dots> = s * s"
    by (simp only: sin_cos_squared_add mult_1_right)
  finally show ?thesis .
qed

lemma hypot_polar:
  assumes "0 < s"
  shows "hypot (s * cos t) (s * sin t) = s" "hypot (- (s * sin t)) (s * cos t) = s"
proof -
  have "sqrt (s * s) = s" using assms by simp
  then show "hypot (s * cos t) (s * sin t) = s"
    unfolding hypot_def by (simp only: polar_norm)
  have "(- (s * sin t)) * (- (s * sin t)) + (s * cos t) * (s * cos t)
      = (s * cos t) * (s * cos t) + (s * sin t) * (s * sin t)"
    by simp
  with \<open>sqrt (s * s) = s\<close> show "hypot (- (s * sin t)) (s * cos t) = s"
    unfolding hypot_def by (simp only: polar_norm)
qed

lemma atan2_polar:
  assumes "0 < s"
  shows "\<exists>k::int. atan2 (s * sin t) (s * cos t) = t + 2 * pi * of_int k"
proof -
  have nz: "s * cos t \<noteq> 0 \<or> s * sin t \<noteq> 0"
    using assms sin_zero_abs_cos_one[of t] by auto
  have "(s * cos t)\<^sup>2 + (s * sin t)\<^sup>2 = s * s"
    by (simp only: power2_eq_square polar_norm)
  then have "sqrt ((s * cos t)\<^sup>2 + (s * sin t)\<^sup>2) = s"
    using assms by simp
  with atan2_cos_sin[OF nz] assms
  have "sin (atan2 (s * sin t) (s * cos t)) = sin t \<and> cos (atan2 (s * sin t) (s * cos t)) = cos t"
    by simp
  then show ?thesis
    by (simp only: sin_cos_eq_iff)
qed

lemma gram_Cons: "gram (r # A) i j = r ! i * r ! j + gram A i j"
  by (simp add: gram_def sum.lessThan_Suc_shift del: sum.lessThan_Suc)

lemma moment_Cons: "moment (r # A) (b # B) j = r ! j * b + moment A B j"
  by (simp add: moment_def sum.lessThan_Suc_shift del: sum.lessThan_Suc)

lemma gram_design:
  "gram (design_matrix ps) i j
     = sum_list (map (\<lambda>p. row_X p ! i * row_X p ! j + row_Y p ! i * row_Y p ! j) ps)"
proof (induction ps)
  case Nil
  then show ?case by (simp add: design_matrix_def gram_def)
next
  case (Cons p ps)
  have "design_matrix (p # ps) = row_X p # row_Y p # design_matrix ps"
    by (simp add: design_matrix_def row_X_def row_Y_def)
  then show ?case by (simp add: gram_Cons Cons.IH)
qed

lemma moment_design:
  "moment (design_matrix ps) (target_vector (map T ps)) j
     = sum_list (map (\<lambda>p. row_X p ! j * px (T p) + row_Y p ! j * py (T p)) ps)"
proof (induction ps)
  case Nil
  then show ?case by (simp add: design_matrix_def target_vector_def moment_def)
next
  case (Cons p ps)
  have "design_matrix (p # ps) = row_X p # row_Y p # design_matrix ps"
    "target_vector (map T (p # ps)) = px (T p) # py (T p) # target_vector (map T ps)"
    by (simp_all add: design_matrix_def target_vector_def row_X_def row_Y_def)
  then show ?case by (simp add: moment_Cons Cons.IH)
qed

lemma sum_list_corners:
  assumes "mset ps = mset (src_corners W H)"
  shows "sum_list (map g ps)
       = g \<lparr>px = - W / 2, py = - H / 2\<rparr> + g \<lparr>px = W / 2, py = - H / 2\<rparr>
         + g \<lparr>px = W / 2, py = H / 2\<rparr> + (g \<lparr>px = - W / 2, py = H / 2\<rparr> :: real)"
  using sum_list_mset_cong[OF assms, of g] by (simp add: src_corners_def)

lemma less_6_cases:
  assumes "i < (6::nat)"
  obtains "i = 0" | "i = 1" | "i = 2" | "i = 3" | "i = 4" | "i = 5"
  using assms by linarith

lemma gram_corners:
  assumes "mset ps = mset (src_corners W H)" "i < 6" "j < 6"
  shows "gram (design_matrix ps) i j = (if i = j then [W * W, H * H, 4, W * W, H * H, 4] ! i else 0)"
proof -
  note g = gram_design sum_list_corners[OF assms(1)] row_X_def row_Y_def field_simps
  from assms(2) show ?thesis
  proof (cases rule: less_6_cases)
    case 1 with assms(3) show ?thesis
      by (cases rule: less_6_cases) (simp_all add: g)
  next
    case 2 with assms(3) show ?thesis
      by (cases rule: less_6_cases) (simp_all add: g)
  next
    case 3 with assms(3) show ?thesis
      by (cases rule: less_6_cases) (simp_all add: g)
  next
    case 4 with assms(3) show ?thesis
      by (cases rule: less_6_cases) (simp_all add: g)
  next
    case 5 with assms(3) show ?thesis
      by (cases rule: less_6_cases) (simp_all add: g)
  next
    case 6 with assms(3) show ?thesis
      by (cases rule: less_6_cases) (simp_all add: g)
  qed
qed

lemma corner_inverse_entry:
  assumes "i < 6" "j < 6"
  shows "corner_inverse W H ! i ! j = (if i = j then 1 / [W * W, H * H, 4, W * W, H * H, 4] ! i else 0)"
  using assms by (simp add: corner_inverse_def)

lemma corner_diag_nonzero:
  assumes "0 < W" "0 < H" "i < 6"
  shows "[W * W, H * H, 4, W * W, H * H, 4] ! i \<noteq> (0::real)"
  using assms(3,1,2) by (cases rule: less_6_cases) simp_all

lemma corner_inverse_of:
  assumes "0 < W" "0 < H" "mset ps = mset (src_corners W H)"
  shows "inverse_of 6 (corner_inverse W H) (gram (design_matrix ps))"
proof -
  let ?D = "\<lambda>i. [W * W, H * H, 4, W * W, H * H, 4] ! i"
  have wf: "wf_mat 6 6 (corner_inverse W H)"
    by (simp add: wf_mat_def corner_inverse_def)
  have 1: "(\<Sum>k<6. corner_inverse W H ! i ! k * gram (design_matrix ps) k j) = (if i = j then 1 else 0)"
    if ij: "i < 6" "j < 6" for i j
  proof -
    have "(\<Sum>k<6. corner_inverse W H ! i ! k * gram (design_matrix ps) k j)
        = (\<Sum>k<6. (if i = k then 1 else 0) * (if k = j then 1 else 0))"
      using ij corner_diag_nonzero[OF assms(1,2) ij(1)] corner_diag_nonzero[OF assms(1,2) ij(2)]
      by (intro sum.cong refl) (auto simp add: corner_inverse_entry gram_corners[OF assms(3)])
    also have "\<dots> = (if i = j then 1 else 0)"
      using ij by (simp only: sum_delta_left[where f = "\<lambda>k. if k = j then 1 else 0"])
    finally show ?thesis .
  qed
  have 2: "(\<Sum>k<6. gram (design_matrix ps) i k * corner_inverse W H ! k ! j) = (if i = j then 1 else 0)"
    if ij: "i < 6" "j < 6" for i j
  proof -
    have "(\<Sum>k<6. gram (design_matrix ps) i k * corner_inverse W H ! k ! j)
        = (\<Sum>k<6. (if i = k then 1 else 0) * (if k = j then 1 else 0))"
      using ij corner_diag_nonzero[OF assms(1,2) ij(1)] corner_diag_nonzero[OF assms(1,2) ij(2)]
      by (intro sum.cong refl) (auto simp add: corner_inverse_entry gram_corners[OF assms(3)])
    also have "\<dots> = (if i = j then 1 else 0)"
      using ij by (simp only: sum_delta_left[where f = "\<lambda>k. if k = j then 1 else 0"])
    finally show ?thesis .
  qed
  show ?thesis unfolding inverse_of_def using wf 1 2 by blast
qed

lemma corner_solution:
  assumes "i < 6"
  shows "(\<Sum>j<6. corner_inverse W H ! i ! j * v j) = v i / [W * W, H * H, 4, W * W, H * H, 4] ! i"
proof -
  have "(\<Sum>j<6. corner_inverse W H ! i ! j * v j)
      = (\<Sum>j<6. (if i = j then 1 else 0) * (v j / [W * W, H * H, 4, W * W, H * H, 4] ! i))"
    using assms by (intro sum.cong refl) (simp add: corner_inverse_entry)
  also have "\<dots> = v i / [W * W, H * H, 4, W * W, H * H, 4] ! i"
    using assms by (simp only: sum_delta_left)
  finally show ?thesis .
qed

lemma similarity_moments:
  assumes "mset ps = mset (src_corners W H)"
  shows "moment (design_matrix ps) (target_vector (map (similarity dx dy t s) ps)) 0 = s * cos t * (W * W)"
    and "moment (design_matrix ps) (target_vector (map (similarity dx dy t s) ps)) (Suc 0) = - (s * sin t) * (H * H)"
    and "moment (design_matrix ps) (target_vector (map (similarity dx dy t s) ps)) 2 = dx * 4"
    and "moment (design_matrix ps) (target_vector (map (similarity dx dy t s) ps)) 3 = s * sin t * (W * W)"
    and "moment (design_matrix ps) (target_vector (map (similarity dx dy t s) ps)) 4 = s * cos t * (H * H)"
    and "moment (design_matrix ps) (target_vector (map (similarity dx dy t s) ps)) 5 = dy * 4"
  unfolding moment_design sum_list_corners[OF assms]
  by (simp_all add: row_X_def row_Y_def similarity_def algebra_simps)

lemma solveAffine_similarity:
  assumes "0 < W" "0 < H" "mset ps = mset (src_corners W H)"
  shows "solveAffine ps (map (similarity dx dy t s) ps)
       = Inr \<lparr>aff_a = s * cos t, aff_b = - (s * sin t), aff_c = dx,
               aff_d = s * sin t, aff_e = s * cos t, aff_f = dy\<rparr>"
proof -
  have len: "length ps = 4"
    using mset_eq_length[OF assms(3)] by (simp add: src_corners_def)
  have inv: "inverse_of 6 (corner_inverse W H) (gram (build_A ps))"
    using corner_inverse_of[OF assms] by (simp add: build_A_design[OF len])
  have W: "W * W \<noteq> 0" and H: "H * H \<noteq> 0" using assms(1,2) by simp_all
  let ?to = "map (similarity dx dy t s) ps"
  let ?mom = "moment (design_matrix ps) (target_vector ?to)"
  have len': "length ?to = 4" using len by simp
  have "solveAffine ps ?to
      = Inr (affine_of (\<lambda>i. \<Sum>j<6. corner_inverse W H ! i ! j * moment (build_A ps) (build_B ?to) j))"
    by (rule solveAffine_inverse[OF len len' inv])
  also have "(\<lambda>i. \<Sum>j<6. corner_inverse W H ! i ! j * moment (build_A ps) (build_B ?to) j)
           = (\<lambda>i. \<Sum>j<6. corner_inverse W H ! i ! j * ?mom j)"
    by (simp only: build_A_design[OF len] build_B_target[OF len'])
  also have "affine_of (\<lambda>i. \<Sum>j<6. corner_inverse W H ! i ! j * ?mom j)
           = \<lparr>aff_a = s * cos t, aff_b = - (s * sin t), aff_c = dx,
              aff_d = s * sin t, aff_e = s * cos t, aff_f = dy\<rparr>"
    using W H
    by (simp add: affine_of_def corner_solution similarity_moments[OF assms(3)])
  finally show ?thesis .
qed

lemma similarity_identity: "map (similarity 0 0 0 1) ps = ps"
  by (induction ps) (simp_all add: similarity_def)

text \<open>
  C2. Let \<open>from\<close> be the four corners, in any order, of the rectangle of width \<open>W > 0\<close> and
  height \<open>H > 0\<close> centred at the origin, and let the target be the image of each corner,
  index for index, under the similarity with translation \<open>(dx, dy)\<close>, rotation angle \<open>t\<close>
  about the origin and scale \<open>s > 0\<close>. Then \<open>solveAffine\<close> followed by
  \<open>decomposeAffineToTRS\<close> gives \<open>position = (dx, dy)\<close>, \<open>rotationZ = t\<close> up to a
  multiple of \<open>2\<pi>\<close>, and \<open>scale.x = scale.y = s\<close>. When the target is the source itself,
  the Pose is \<open>position = (0, 0)\<close>, \<open>rotationZ = 0\<close>, \<open>scale = 1\<close>.
\<close>

theorem fit_recovers_similarity:
  assumes "0 < W" and "0 < H" and "0 < s"
    and "mset from = mset (src_corners W H)"
  shows "(\<exists>aff. solveAffine from (map (similarity dx dy t s) from) = Inr aff
           \<and> position (decomposeAffineToTRS aff) = \<lparr>vx = dx, vy = dy, vz = 0\<rparr>
           \<and> (\<exists>k::int. rotationZ (decomposeAffineToTRS aff) = t + 2 * pi * of_int k)
           \<and> scale (decomposeAffineToTRS aff) = \<lparr>vx = s, vy = s, vz = 1\<rparr>)
       \<and> (\<exists>aff. solveAffine from from = Inr aff
           \<and> decomposeAffineToTRS aff
               = \<lparr>position = \<lparr>vx = 0, vy = 0, vz = 0\<rparr>, rotationZ = 0,
                  scale = \<lparr>vx = 1, vy = 1, vz = 1\<rparr>\<rparr>)"
proof -
  let ?aff = "\<lparr>aff_a = s * cos t, aff_b = - (s * sin t), aff_c = dx,
               aff_d = s * sin t, aff_e = s * cos t, aff_f = dy\<rparr>"
  have run: "solveAffine from (map (similarity dx dy t s) from) = Inr ?aff"
    by (rule solveAffine_similarity[OF assms(1,2,4)])
  have pos: "position (decomposeAffineToTRS ?aff) = \<lparr>vx = dx, vy = dy, vz = 0\<rparr>"
    by (simp add: decomposeAffineToTRS_def Let_def)
  have rot: "\<exists>k::int. rotationZ (decomposeAffineToTRS ?aff) = t + 2 * pi * of_int k"
    using atan2_polar[OF assms(3), of t] by (simp add: decomposeAffineToTRS_def Let_def)
  have scl: "scale (decomposeAffineToTRS ?aff) = \<lparr>vx = s, vy = s, vz = 1\<rparr>"
    using hypot_polar[OF assms(3), of t] by (simp add: decomposeAffineToTRS_def Let_def)
  have "solveAffine from (map (similarity 0 0 0 1) from)
      = Inr \<lparr>aff_a = 1 * cos 0, aff_b = - (1 * sin 0), aff_c = 0,
             aff_d = 1 * sin 0, aff_e = 1 * cos 0, aff_f = 0\<rparr>"
    by (rule solveAffine_similarity[OF assms(1,2,4)])
  then have id_run: "solveAffine from from
      = Inr \<lparr>aff_a = 1, aff_b = 0, aff_c = 0, aff_d = 0, aff_e = 1, aff_f = 0\<rparr>"
    by (simp add: similarity_identity)
  have id_pose: "decomposeAffineToTRS \<lparr>aff_a = 1, aff_b = 0, aff_c = 0, aff_d = 0, aff_e = 1, aff_f = 0\<rparr>
      = \<lparr>position = \<lparr>vx = 0, vy = 0, vz = 0\<rparr>, rotationZ = 0, scale = \<lparr>vx = 1, vy = 1, vz = 1\<rparr>\<rparr>"
    by (simp add: decomposeAffineToTRS_def Let_def hypot_def atan2_def)
  from run pos rot scl id_run id_pose show ?thesis
    by blast
qed

theorem fit_recovers_similarity_witness:
  "(0::real) < 2 \<and> mset (rotate1 (src_corners 2 2)) = mset (src_corners 2 2)
   \<and> (\<exists>aff. solveAffine (rotate1 (src_corners 2 2))
               (map (similarity 5 7 (pi / 2) 2) (rotate1 (src_corners 2 2))) = Inr aff
           \<and> position (decomposeAffineToTRS aff) = \<lparr>vx = 5, vy = 7, vz = 0\<rparr>
           \<and> (\<exists>k::int. rotationZ (decomposeAffineToTRS aff) = pi / 2 + 2 * pi * of_int k)
           \<and> scale (decomposeAffineToTRS aff) = \<lparr>vx = 2, vy = 2, vz = 1\<rparr>)
   \<and> (\<exists>aff. solveAffine (rotate1 (src_corners 2 2)) (rotate1 (src_corners 2 2)) = Inr aff
           \<and> decomposeAffineToTRS aff
               = \<lparr>position = \<lparr>vx = 0, vy = 0, vz = 0\<rparr>, rotationZ = 0,
                  scale = \<lparr>vx = 1, vy = 1, vz = 1\<rparr>\<rparr>)"
proof -
  have h: "(0::real) < 2" by simp
  have m: "mset (rotate1 (src_corners 2 2)) = mset (src_corners 2 2)"
    by (simp add: src_corners_def)
  from fit_recovers_similarity[OF h h h m, of 5 7 "pi / 2"] h m show ?thesis
    by blast
qed

subsection \<open>The source corners and the mapped picks\<close>

lemma square_keys:
  "angle_key 200 200 \<lparr>px = 300, py = 300\<rparr> = pi / 4"
  "angle_key 200 200 \<lparr>px = 100, py = 100\<rparr> = - (3 * pi / 4)"
  "angle_key 200 200 \<lparr>px = 100, py = 300\<rparr> = 3 * pi / 4"
  "angle_key 200 200 \<lparr>px = 300, py = 100\<rparr> = - (pi / 4)"
  by (simp_all add: angle_key_def atan2_def arctan_one arctan_minus)

lemma square_centroid:
  "centroid_x (\<lambda>p. p) square_picks = 200" "centroid_y (\<lambda>p. p) square_picks = 200"
  by (simp_all add: centroid_x_def centroid_y_def square_picks_def)

lemma square_sorted:
  "sort_key (angle_key 200 200) square_picks
     = [\<lparr>px = 100, py = 100\<rparr>, \<lparr>px = 300, py = 100\<rparr>, \<lparr>px = 300, py = 300\<rparr>, \<lparr>px = 100, py = 300\<rparr>]"
  by (simp add: square_picks_def square_keys not_le)

lemma square_start:
  "start_index [\<lparr>px = 100, py = 100\<rparr>, \<lparr>px = 300, py = 100\<rparr>, \<lparr>px = 300, py = 300\<rparr>, \<lparr>px = 100, py = 300\<rparr>] = 0"
  by (simp add: start_index_def enumerate_eq_zip upt_rec best_step_def)

lemma square_ordered:
  "ordered_quad (\<lambda>p. p) square_picks
     = [\<lparr>px = 100, py = 100\<rparr>, \<lparr>px = 300, py = 100\<rparr>, \<lparr>px = 300, py = 300\<rparr>, \<lparr>px = 100, py = 300\<rparr>]"
  by (simp add: ordered_quad_def square_centroid square_sorted square_start Let_def)

lemma demo_display:
  "dispW demo_env (demo_state pts) = 1400" "dispH demo_env (demo_state pts) = 1575 / 2"
  "src_W demo_env (demo_state pts) = 42" "src_H demo_env (demo_state pts) = 36"
  by (simp_all add: dispW_def dispH_def maxW_def src_W_def src_H_def demo_env_def demo_state_def
        or_num_def)

lemma demo_fitPoints: "fitPoints (demo_state pts) = pts"
  by (simp add: demo_state_def)

lemma demo_screenToWorld:
  "screenToWorld demo_env (demo_state pts) \<lparr>px = u, py = v\<rparr>
     = \<lparr>px = u * 3 / 35 - 60, py = 135 / 4 - v * 3 / 35\<rparr>"
  by (simp add: screenToWorld_def Let_def demo_display) (simp add: demo_state_def)

lemma demo_targets:
  "map (screenToWorld demo_env (demo_state square_picks)) (ordered_quad (\<lambda>p. p) square_picks)
     = [\<lparr>px = - (360 / 7), py = 705 / 28\<rparr>, \<lparr>px = - (240 / 7), py = 705 / 28\<rparr>,
        \<lparr>px = - (240 / 7), py = 225 / 28\<rparr>, \<lparr>px = - (360 / 7), py = 225 / 28\<rparr>]"
  by (simp add: square_ordered demo_screenToWorld)

lemma demo_fit_affine:
  "fit_affine demo_env (demo_state square_picks)
     = Inr \<lparr>aff_a = 20 / 49, aff_b = 0, aff_c = - (300 / 7),
            aff_d = 0, aff_e = - (10 / 21), aff_f = 465 / 28\<rparr>"
proof -
  let ?src = "src_corners 42 36"
  let ?tgt = "[\<lparr>px = - (360 / 7), py = 705 / 28\<rparr>, \<lparr>px = - (240 / 7), py = 705 / 28\<rparr>,
        \<lparr>px = - (240 / 7), py = 225 / 28\<rparr>, \<lparr>px = - (360 / 7), py = 225 / 28 :: real\<rparr>]"
  have len: "length ?src = 4" "length ?tgt = 4" by (simp_all add: src_corners_def)
  have inv: "inverse_of 6 (corner_inverse 42 36) (gram (build_A ?src))"
    using corner_inverse_of[of 42 36 ?src] by (simp add: build_A_design[OF len(1)])
  have "fit_affine demo_env (demo_state square_picks) = solveAffine ?src ?tgt"
    by (simp add: fit_affine_def demo_display demo_targets demo_fitPoints)
  also have "\<dots> = Inr (affine_of (\<lambda>i. \<Sum>j<6. corner_inverse 42 36 ! i ! j
                           * moment (build_A ?src) (build_B ?tgt) j))"
    by (rule solveAffine_inverse[OF len inv])
  also have "affine_of (\<lambda>i. \<Sum>j<6. corner_inverse 42 36 ! i ! j
                           * moment (build_A ?src) (build_B ?tgt) j)
           = \<lparr>aff_a = 20 / 49, aff_b = 0, aff_c = - (300 / 7),
              aff_d = 0, aff_e = - (10 / 21), aff_f = 465 / 28\<rparr>"
    by (simp add: affine_of_def corner_solution)
       (simp add: moment_def build_A_rows build_B_entries src_corners_def eval_nat_numeral)
  finally show ?thesis .
qed

text \<open>\<open>decomposeAffineToTRS\<close> does not see the sign of \<open>b\<close> and \<open>e\<close>.\<close>

lemma decompose_mirror_blind:
  "decomposeAffineToTRS (p\<lparr>aff_b := - aff_b p, aff_e := - aff_e p\<rparr>) = decomposeAffineToTRS p"
  by (simp add: decomposeAffineToTRS_def hypot_def)

subsection \<open>The handler on a concrete input\<close>

text \<open>
  The handler run on the picked square: the sign is moved to the centre of the picked
  quad, not rotated, and scaled by the mean of the two axis scales.
\<close>

lemma demo_fit_patch:
  "applyFourPointFit demo_env (demo_state square_picks)
     = ([Call_orderQuad, Call_getTextOnlyWorldSize, Call_solveAffine,
         Call_decomposeAffineToTRS, Call_set],
        Inr (Some \<lparr>patch_signTX = - (300 / 7), patch_signTY = 465 / 28, patch_signRZ = 0,
                   patch_signScale = 65 / 147, patch_fitMode = False, patch_fitPoints = []\<rparr>))"
proof -
  have len: "length (fitPoints (demo_state square_picks)) = 4"
    by (simp add: demo_fitPoints square_picks_def)
  have sq: "sqrt (400 / 2401) = 20 / 49" "sqrt (100 / 441) = 10 / 21"
    by (simp_all add: real_sqrt_divide)
  from applyFourPointFit_four[OF len, of demo_env] show ?thesis
    by (simp add: demo_fit_affine pose_patch_def decomposeAffineToTRS_def hypot_def atan2_def
          or_num_def sq)
qed

subsection \<open>The state update\<close>

lemma applyFourPointFit_solved:
  assumes "length (fitPoints S) = 4"
  shows "\<exists>ordered aff.
           orderQuad (fitPoints S) = map Some ordered
         \<and> solveAffine (src_corners (src_W env S) (src_H env S))
               (map (screenToWorld env S) ordered) = Inr aff
         \<and> applyFourPointFit env S =
             ([Call_orderQuad, Call_getTextOnlyWorldSize, Call_solveAffine,
               Call_decomposeAffineToTRS, Call_set],
              Inr (Some (pose_patch (decomposeAffineToTRS aff))))"
proof -
  from applyFourPointFit_four[OF assms, of env] obtain aff where
    aff: "fit_affine env S = Inr aff"
    and run: "applyFourPointFit env S =
            ([Call_orderQuad, Call_getTextOnlyWorldSize, Call_solveAffine,
              Call_decomposeAffineToTRS, Call_set],
             Inr (Some (pose_patch (decomposeAffineToTRS aff))))"
    by blast
  have "orderQuad (fitPoints S) = map Some (ordered_quad (\<lambda>p. p) (fitPoints S))"
    unfolding orderQuad_def by (rule orderQuad_on_four[OF assms])
  with aff run show ?thesis
    unfolding fit_affine_def by blast
qed

text \<open>
  C8. With exactly four points, \<open>applyFourPointFit\<close> orders the picks, solves the affine
  map \<open>aff\<close> from the source corners to the mapped picks, and makes one call of \<open>set\<close>
  whose one argument carries the solved Pose and the two fit fields together:
  \<open>signTX = c\<close>, \<open>signTY = f\<close>, \<open>signRZ = atan2(d, a)\<close>,
  \<open>signScale = max(0.05, (hypot(a, d) + hypot(b, e)) / 2 || 1)\<close>, \<open>fitMode = false\<close>,
  \<open>fitPoints = []\<close>. The state after it is the state before with exactly these six
  fields replaced; every other field, named or in the rest of the state object, is as
  before.
\<close>

theorem applyFourPointFit_atomic:
  assumes "length (fitPoints S) = 4"
  shows "\<exists>ordered aff.
           orderQuad (fitPoints S) = map Some ordered
         \<and> solveAffine (src_corners (src_W env S) (src_H env S))
               (map (screenToWorld env S) ordered) = Inr aff
         \<and> applyFourPointFit env S =
             ([Call_orderQuad, Call_getTextOnlyWorldSize, Call_solveAffine,
               Call_decomposeAffineToTRS, Call_set],
              Inr (Some \<lparr>patch_signTX = aff_c aff, patch_signTY = aff_f aff,
                         patch_signRZ = atan2 (aff_d aff) (aff_a aff),
                         patch_signScale =
                           max 0.05 (or_num ((hypot (aff_a aff) (aff_d aff)
                                              + hypot (aff_b aff) (aff_e aff)) / 2) 1),
                         patch_fitMode = False, patch_fitPoints = []\<rparr>))
         \<and> after_applyFourPointFit env S prev =
               prev\<lparr>signTX := aff_c aff, signTY := aff_f aff,
                    signRZ := atan2 (aff_d aff) (aff_a aff),
                    signScale :=
                      max 0.05 (or_num ((hypot (aff_a aff) (aff_d aff)
                                         + hypot (aff_b aff) (aff_e aff)) / 2) 1),
                    fitMode := False, fitPoints := []\<rparr>
         \<and> imgW (after_applyFourPointFit env S prev) = imgW prev
         \<and> imgH (after_applyFourPointFit env S prev) = imgH prev
         \<and> size (after_applyFourPointFit env S prev) = size prev
         \<and> app_state.more (after_applyFourPointFit env S prev) = app_state.more prev"
proof -
  from applyFourPointFit_solved[OF assms, of env] obtain ordered aff where
    oq: "orderQuad (fitPoints S) = map Some ordered"
    and sa: "solveAffine (src_corners (src_W env S) (src_H env S))
               (map (screenToWorld env S) ordered) = Inr aff"
    and run: "applyFourPointFit env S =
            ([Call_orderQuad, Call_getTextOnlyWorldSize, Call_solveAffine,
              Call_decomposeAffineToTRS, Call_set],
             Inr (Some (pose_patch (decomposeAffineToTRS aff))))"
    by blast
  have patch: "pose_patch (decomposeAffineToTRS aff)
      = \<lparr>patch_signTX = aff_c aff, patch_signTY = aff_f aff,
         patch_signRZ = atan2 (aff_d aff) (aff_a aff),
         patch_signScale =
           max 0.05 (or_num ((hypot (aff_a aff) (aff_d aff)
                              + hypot (aff_b aff) (aff_e aff)) / 2) 1),
         patch_fitMode = False, patch_fitPoints = []\<rparr>"
    by (simp add: pose_patch_def decomposeAffineToTRS_def Let_def)
  show ?thesis
    apply (rule exI[of _ ordered], rule exI[of _ aff])
    using oq sa by (simp add: run patch after_applyFourPointFit_def set_patch_def)
qed

theorem applyFourPointFit_atomic_witness:
  "length (fitPoints (demo_state square_picks)) = 4 \<and>
   applyFourPointFit demo_env (demo_state square_picks) =
     ([Call_orderQuad, Call_getTextOnlyWorldSize, Call_solveAffine,
       Call_decomposeAffineToTRS, Call_set],
      Inr (Some \<lparr>patch_signTX = - (300 / 7), patch_signTY = 465 / 28, patch_signRZ = 0,
                 patch_signScale = 65 / 147, patch_fitMode = False, patch_fitPoints = []\<rparr>)) \<and>
   after_applyFourPointFit demo_env (demo_state square_picks) (demo_state square_picks) =
     \<lparr>imgW = 1600, imgH = 900, signTX = - (300 / 7), signTY = 465 / 28, signRZ = 0,
      signScale = 65 / 147, size = 32, fitPoints = [], fitMode = False\<rparr>"
proof -
  let ?S = "demo_state square_picks"
  have h: "length (fitPoints ?S) = 4"
    by (simp add: demo_fitPoints square_picks_def)
  from applyFourPointFit_atomic[OF h, of demo_env ?S] obtain ordered aff where
    oq: "orderQuad (fitPoints ?S) = map Some ordered"
    and sa: "solveAffine (src_corners (src_W demo_env ?S) (src_H demo_env ?S))
               (map (screenToWorld demo_env ?S) ordered) = Inr aff"
    and run: "applyFourPointFit demo_env ?S =
             ([Call_orderQuad, Call_getTextOnlyWorldSize, Call_solveAffine,
               Call_decomposeAffineToTRS, Call_set],
              Inr (Some \<lparr>patch_signTX = aff_c aff, patch_signTY = aff_f aff,
                         patch_signRZ = atan2 (aff_d aff) (aff_a aff),
                         patch_signScale =
                           max 0.05 (or_num ((hypot (aff_a aff) (aff_d aff)
                                              + hypot (aff_b aff) (aff_e aff)) / 2) 1),
                         patch_fitMode = False, patch_fitPoints = []\<rparr>))"
    and after: "after_applyFourPointFit demo_env ?S ?S =
               ?S\<lparr>signTX := aff_c aff, signTY := aff_f aff,
                    signRZ := atan2 (aff_d aff) (aff_a aff),
                    signScale :=
                      max 0.05 (or_num ((hypot (aff_a aff) (aff_d aff)
                                         + hypot (aff_b aff) (aff_e aff)) / 2) 1),
                    fitMode := False, fitPoints := []\<rparr>"
    by blast
  have "orderQuad (fitPoints ?S) = map Some (ordered_quad (\<lambda>p. p) square_picks)"
    by (simp add: demo_fitPoints orderQuad_def orderQuad_on_four square_picks_def)
  with oq have "map Some ordered = map Some (ordered_quad (\<lambda>p. p) square_picks)"
    by simp
  then have ordered: "ordered = ordered_quad (\<lambda>p. p) square_picks"
    by (simp add: inj_map_eq_map)
  from sa have "fit_affine demo_env ?S = Inr aff"
    by (simp add: fit_affine_def ordered demo_fitPoints)
  then have aff: "aff = \<lparr>aff_a = 20 / 49, aff_b = 0, aff_c = - (300 / 7),
                          aff_d = 0, aff_e = - (10 / 21), aff_f = 465 / 28\<rparr>"
    by (simp add: demo_fit_affine)
  have sq: "sqrt (400 / 2401) = 20 / 49" "sqrt (100 / 441) = 10 / 21"
    by (simp_all add: real_sqrt_divide)
  from h run after show ?thesis
    by (simp add: aff atan2_def hypot_def or_num_def sq demo_state_def)
qed

subsection \<open>No error on four points\<close>

lemma inv_state_Suc: "inv_state m (Suc c) = inv_step (length m) c (inv_state m c)"
  by (simp add: inv_state_def)

lemma inv_state_wf:
  assumes "wf_mat n n m" "c \<le> n"
  shows "wf_aug n (inv_state m c)"
  using assms(2)
proof (induction c)
  case 0
  then show ?case using augment_wf[OF assms(1)] by (simp add: inv_state_def)
next
  case (Suc c)
  have n: "length m = n" using assms(1) by (simp add: wf_mat_def)
  from Suc have "wf_aug n (inv_state m c)" "c < n" by simp_all
  from inv_step_wf[OF this] show ?case by (simp add: inv_state_Suc n)
qed

lemma inv_by_states: "inv m = map (drop (length m)) (inv_state m (length m))"
  by (simp add: inv_def inv_state_def Let_def)

lemma inv_wf:
  assumes "wf_mat n n m"
  shows "wf_mat n n (inv m)"
proof -
  have n: "length m = n" using assms by (simp add: wf_mat_def)
  from inv_state_wf[OF assms le_refl] show ?thesis
    by (simp add: inv_by_states n wf_mat_def wf_aug_def)
qed

lemma inv_step_pivot_row:
  assumes "wf_aug n a" "c < n" "j < 2 * n"
  shows "inv_step n c a ! c ! j
           = a ! find_pivot a n c ! j / pivot_or_eps (a ! find_pivot a n c ! c)"
  using inv_step_entry[OF assms(1,2,2,3)] by simp

lemma inv_zero_pivot: "inv [[0]] = [[10 ^ 9]]"
  by (simp add: inv_def augment_def inv_step_def find_pivot_def swap_rows_def pivot_or_eps_def
        or_num_def div_row_def eliminate_def Let_def upt_rec numeral_2_eq_2)

lemma solve_params_length: "length (solve_params from to) = 6"
proof -
  have A: "wf_mat 8 6 (build_A from)" by (rule build_A_wf)
  have T: "wf_mat 6 8 (AT (build_A from))" by (rule AT_wf[OF A]) simp
  have G: "wf_mat 6 6 (mul (AT (build_A from)) (build_A from))" by (rule normal_matrix(1))
  have I: "wf_mat 6 6 (inv (mul (AT (build_A from)) (build_A from)))" by (rule inv_wf[OF G])
  have C: "wf_mat 8 1 (map (\<lambda>v. [v]) (build_B to))" by (simp add: wf_mat_def build_B_length)
  have TC: "wf_mat 6 1 (mul (AT (build_A from)) (map (\<lambda>v. [v]) (build_B to)))"
    by (rule mul_wf[OF T C]) simp
  have "wf_mat 6 1 (mul (inv (mul (AT (build_A from)) (build_A from)))
                        (mul (AT (build_A from)) (map (\<lambda>v. [v]) (build_B to))))"
    by (rule mul_wf[OF I TC]) simp
  then show ?thesis by (simp add: solve_params_def Let_def wf_mat_def)
qed

text \<open>
  C6. With four picked points, coincident and collinear ones included,
  \<open>applyFourPointFit\<close> raises no error: \<open>orderQuad\<close> returns four points, \<open>solveAffine\<close>
  returns an affine map, and the handler ends in its call of \<open>set\<close>; the \<open>signScale\<close> it
  writes is \<open>max(0.05, ...)\<close> of the solved scales and so at least \<open>0.05\<close>. Inside
  \<open>solveAffine\<close> every row that is read exists (\<open>A\<close> is 8 by 6, its transpose 6 by 8,
  \<open>A\<^sup>tA\<close> and its computed inverse 6 by 6). In each of the six rounds of the loop of
  \<open>inv\<close> the array has six rows of twelve entries, the pivot row index lies in
  \<open>c..5\<close>, and the pivot row is divided by \<open>d = a[r][c] || 1e-9\<close>, which is never zero:
  it is \<open>1e-9\<close> exactly when the pivot is zero. On the 1 by 1 zero matrix \<open>inv\<close> returns
  \<open>1e9\<close>, the identity entry divided by the fallback.
\<close>

theorem applyFourPointFit_no_error:
  assumes "length (fitPoints S) = 4"
  shows "(\<exists>ordered aff.
            orderQuad (fitPoints S) = map Some ordered
          \<and> solveAffine (src_corners (src_W env S) (src_H env S))
                (map (screenToWorld env S) ordered) = Inr aff
          \<and> snd (applyFourPointFit env S) = Inr (Some (pose_patch (decomposeAffineToTRS aff)))
          \<and> signScale (after_applyFourPointFit env S prev)
              = max 0.05 (or_num ((hypot (aff_a aff) (aff_d aff)
                                   + hypot (aff_b aff) (aff_e aff)) / 2) 1))
       \<and> 0.05 \<le> signScale (after_applyFourPointFit env S prev)
       \<and> wf_mat 8 6 (build_A (src_corners (src_W env S) (src_H env S)))
       \<and> wf_mat 6 8 (AT (build_A (src_corners (src_W env S) (src_H env S))))
       \<and> wf_mat 6 6 (fit_normal env S)
       \<and> wf_mat 6 6 (inv (fit_normal env S))
       \<and> inv (fit_normal env S) = map (drop 6) (inv_state (fit_normal env S) 6)
       \<and> (\<forall>c<6. wf_aug 6 (inv_state (fit_normal env S) c)
              \<and> inv_state (fit_normal env S) (Suc c) = inv_step 6 c (inv_state (fit_normal env S) c)
              \<and> c \<le> find_pivot (inv_state (fit_normal env S) c) 6 c
              \<and> find_pivot (inv_state (fit_normal env S) c) 6 c < 6
              \<and> pivot_or_eps (inv_state (fit_normal env S) c
                               ! find_pivot (inv_state (fit_normal env S) c) 6 c ! c) \<noteq> 0
              \<and> (\<forall>j<12. inv_step 6 c (inv_state (fit_normal env S) c) ! c ! j
                    = inv_state (fit_normal env S) c
                        ! find_pivot (inv_state (fit_normal env S) c) 6 c ! j
                      / pivot_or_eps (inv_state (fit_normal env S) c
                               ! find_pivot (inv_state (fit_normal env S) c) 6 c ! c)))
       \<and> (\<forall>v. pivot_or_eps v = (if v = 0 then 1 / 10 ^ 9 else v))
       \<and> inv [[0]] = [[10 ^ 9]]"
proof -
  let ?src = "src_corners (src_W env S) (src_H env S)"
  let ?G = "fit_normal env S"
  from applyFourPointFit_solved[OF assms, of env] obtain ordered aff where
    oq: "orderQuad (fitPoints S) = map Some ordered"
    and sa: "solveAffine ?src (map (screenToWorld env S) ordered) = Inr aff"
    and run: "applyFourPointFit env S =
            ([Call_orderQuad, Call_getTextOnlyWorldSize, Call_solveAffine,
              Call_decomposeAffineToTRS, Call_set],
             Inr (Some (pose_patch (decomposeAffineToTRS aff))))"
    by blast
  have scale: "signScale (after_applyFourPointFit env S prev)
              = max 0.05 (or_num ((hypot (aff_a aff) (aff_d aff)
                                   + hypot (aff_b aff) (aff_e aff)) / 2) 1)"
    by (simp add: run after_applyFourPointFit_def set_patch_def pose_patch_def
          decomposeAffineToTRS_def Let_def)
  have 1: "\<exists>ordered aff.
            orderQuad (fitPoints S) = map Some ordered
          \<and> solveAffine ?src (map (screenToWorld env S) ordered) = Inr aff
          \<and> snd (applyFourPointFit env S) = Inr (Some (pose_patch (decomposeAffineToTRS aff)))
          \<and> signScale (after_applyFourPointFit env S prev)
              = max 0.05 (or_num ((hypot (aff_a aff) (aff_d aff)
                                   + hypot (aff_b aff) (aff_e aff)) / 2) 1)"
    using oq sa run scale by (intro exI[of _ ordered] exI[of _ aff]) simp
  have 2: "0.05 \<le> signScale (after_applyFourPointFit env S prev)"
    unfolding scale by simp
  have A: "wf_mat 8 6 (build_A ?src)" by (rule build_A_wf)
  have T: "wf_mat 6 8 (AT (build_A ?src))" by (rule AT_wf[OF A]) simp
  have G: "wf_mat 6 6 ?G" unfolding fit_normal_def by (rule normal_matrix(1))
  then have lenG: "length ?G = 6" by (simp add: wf_mat_def)
  have I: "wf_mat 6 6 (inv ?G)" by (rule inv_wf[OF G])
  have IS: "inv ?G = map (drop 6) (inv_state ?G 6)"
    using inv_by_states[of ?G] by (simp add: lenG)
  have piv: "wf_aug 6 (inv_state ?G c)
       \<and> inv_state ?G (Suc c) = inv_step 6 c (inv_state ?G c)
       \<and> c \<le> find_pivot (inv_state ?G c) 6 c
       \<and> find_pivot (inv_state ?G c) 6 c < 6
       \<and> pivot_or_eps (inv_state ?G c ! find_pivot (inv_state ?G c) 6 c ! c) \<noteq> 0
       \<and> (\<forall>j<12. inv_step 6 c (inv_state ?G c) ! c ! j
             = inv_state ?G c ! find_pivot (inv_state ?G c) 6 c ! j
               / pivot_or_eps (inv_state ?G c ! find_pivot (inv_state ?G c) 6 c ! c))"
    if c: "c < 6" for c
  proof -
    have wf: "wf_aug 6 (inv_state ?G c)"
      using inv_state_wf[OF G, of c] c by simp
    have "inv_state ?G (Suc c) = inv_step 6 c (inv_state ?G c)"
      using inv_state_Suc[of ?G c] by (simp add: lenG)
    moreover have "pivot_or_eps v \<noteq> 0" for v
      by (simp add: pivot_or_eps_def or_num_def)
    moreover have "\<forall>j<12. inv_step 6 c (inv_state ?G c) ! c ! j
             = inv_state ?G c ! find_pivot (inv_state ?G c) 6 c ! j
               / pivot_or_eps (inv_state ?G c ! find_pivot (inv_state ?G c) 6 c ! c)"
      using inv_step_pivot_row[OF wf c] by simp
    ultimately show ?thesis
      using wf find_pivot_props(1,2)[OF c, of "inv_state ?G c"] by blast
  qed
  have eps: "\<forall>v. pivot_or_eps v = (if v = 0 then 1 / 10 ^ 9 else v)"
    by (simp add: pivot_or_eps_def or_num_def)
  from 1 2 A T G I IS piv eps inv_zero_pivot show ?thesis
    by blast
qed

subsection \<open>The convention of the source corners\<close>

lemma solveAffine_corners:
  assumes "0 < W" "0 < H" "mset ps = mset (src_corners W H)" "length tgt = 4"
  shows "solveAffine ps tgt
       = Inr (affine_of (\<lambda>i. moment (design_matrix ps) (target_vector tgt) i
                               / [W * W, H * H, 4, W * W, H * H, 4] ! i))"
proof -
  have len: "length ps = 4"
    using mset_eq_length[OF assms(3)] by (simp add: src_corners_def)
  have inv: "inverse_of 6 (corner_inverse W H) (gram (build_A ps))"
    using corner_inverse_of[OF assms(1,2,3)] by (simp add: build_A_design[OF len])
  have "solveAffine ps tgt
      = Inr (affine_of (\<lambda>i. \<Sum>j<6. corner_inverse W H ! i ! j * moment (build_A ps) (build_B tgt) j))"
    by (rule solveAffine_inverse[OF len assms(4) inv])
  also have "affine_of (\<lambda>i. \<Sum>j<6. corner_inverse W H ! i ! j * moment (build_A ps) (build_B tgt) j)
           = affine_of (\<lambda>i. moment (design_matrix ps) (target_vector tgt) i
                               / [W * W, H * H, 4, W * W, H * H, 4] ! i)"
    by (simp add: affine_of_def corner_solution build_A_design[OF len] build_B_target[OF assms(4)])
  finally show ?thesis .
qed

lemma moment_four:
  "moment [r0, r1, r2, r3, r4, r5, r6, r7] [b0, b1, b2, b3, b4, b5, b6, b7] j
     = r0 ! j * b0 + r1 ! j * b1 + r2 ! j * b2 + r3 ! j * b3
       + r4 ! j * b4 + r5 ! j * b5 + r6 ! j * b6 + r7 ! j * b7"
  by (simp add: moment_Cons moment_def)

lemma corners_y_up_mset: "mset (corners_y_up W H) = mset (src_corners W H)"
  by (simp add: corners_y_up_def src_corners_def)

lemma solveAffine_y_up_mirror:
  assumes "0 < W" "0 < H" "length tgt = 4"
  shows "\<exists>aff. solveAffine (src_corners W H) tgt = Inr aff
             \<and> solveAffine (corners_y_up W H) tgt = Inr (mirror aff)"
proof -
  obtain t0 t1 t2 t3 where tgt: "tgt = [t0, t1, t2, t3]"
    using four_list[OF assms(3)] by blast
  have 1: "solveAffine (src_corners W H) tgt
       = Inr (affine_of (\<lambda>i. moment (design_matrix (src_corners W H)) (target_vector tgt) i
                               / [W * W, H * H, 4, W * W, H * H, 4] ! i))"
    by (rule solveAffine_corners[OF assms(1,2) refl assms(3)])
  have 2: "solveAffine (corners_y_up W H) tgt
       = Inr (affine_of (\<lambda>i. moment (design_matrix (corners_y_up W H)) (target_vector tgt) i
                               / [W * W, H * H, 4, W * W, H * H, 4] ! i))"
    by (rule solveAffine_corners[OF assms(1,2) corners_y_up_mset assms(3)])
  have "affine_of (\<lambda>i. moment (design_matrix (corners_y_up W H)) (target_vector tgt) i
                               / [W * W, H * H, 4, W * W, H * H, 4] ! i)
      = mirror (affine_of (\<lambda>i. moment (design_matrix (src_corners W H)) (target_vector tgt) i
                               / [W * W, H * H, 4, W * W, H * H, 4] ! i))"
    using assms(1,2)
    by (simp add: affine_of_def mirror_def tgt design_matrix_def target_vector_def
          corners_y_up_def src_corners_def moment_four)
       (simp add: field_simps)
  with 1 2 show ?thesis by simp
qed

lemma pose_patch_mirror:
  "pose_patch (decomposeAffineToTRS (mirror p)) = pose_patch (decomposeAffineToTRS p)"
  by (simp add: mirror_def decomposeAffineToTRS_def hypot_def)

lemma screenToWorld_flips:
  assumes "0 < imgW S" "0 < imgH S" "py p < py q"
  shows "py (screenToWorld env S q) < py (screenToWorld env S p)"
proof -
  have w: "0 < dispW env S" by (simp add: dispW_def)
  then have h: "0 < dispH env S" using assms(1,2) by (simp add: dispH_def)
  have k: "0 < 120 * (imgH S / imgW S)" using assms(1,2) by simp
  have "py p / dispH env S < py q / dispH env S"
    using assms(3) h by (simp add: divide_strict_right_mono)
  then have "py p / dispH env S * (120 * (imgH S / imgW S))
           < py q / dispH env S * (120 * (imgH S / imgW S))"
    using k by (simp only: mult_strict_right_mono)
  then show ?thesis
    by (simp add: screenToWorld_def Let_def mult.commute)
qed

text \<open>
  C3, as claimed: the source corners handed to \<open>solveAffine\<close> are the rectangle's
  top-left, top-right, bottom-right and bottom-left corners in the y-up space of the mapped
  picks. This fails. For a square picked on the screen (initial state, 1600 by 900 image)
  the list handed over begins with \<open>(-21, -18)\<close>, the bottom-left corner of a y-up space,
  and is not the y-up listing; the first mapped pick \<open>(-360/7, 705/28)\<close> is the top-left
  one, and the solved map has \<open>e < 0\<close>.
\<close>

theorem source_corners_not_y_up:
  "src_corners (src_W demo_env (demo_state square_picks)) (src_H demo_env (demo_state square_picks))
     \<noteq> corners_y_up (src_W demo_env (demo_state square_picks))
                      (src_H demo_env (demo_state square_picks))
   \<and> orderQuad square_picks
     = [Some \<lparr>px = 100, py = 100\<rparr>, Some \<lparr>px = 300, py = 100\<rparr>,
        Some \<lparr>px = 300, py = 300\<rparr>, Some \<lparr>px = 100, py = 300\<rparr>]
   \<and> src_corners (src_W demo_env (demo_state square_picks)) (src_H demo_env (demo_state square_picks))
     = [\<lparr>px = - 21, py = - 18\<rparr>, \<lparr>px = 21, py = - 18\<rparr>, \<lparr>px = 21, py = 18\<rparr>, \<lparr>px = - 21, py = 18\<rparr>]
   \<and> corners_y_up (src_W demo_env (demo_state square_picks)) (src_H demo_env (demo_state square_picks))
     = [\<lparr>px = - 21, py = 18\<rparr>, \<lparr>px = 21, py = 18\<rparr>, \<lparr>px = 21, py = - 18\<rparr>, \<lparr>px = - 21, py = - 18\<rparr>]
   \<and> map (screenToWorld demo_env (demo_state square_picks)) (ordered_quad (\<lambda>p. p) square_picks)
     = [\<lparr>px = - (360 / 7), py = 705 / 28\<rparr>, \<lparr>px = - (240 / 7), py = 705 / 28\<rparr>,
        \<lparr>px = - (240 / 7), py = 225 / 28\<rparr>, \<lparr>px = - (360 / 7), py = 225 / 28\<rparr>]
   \<and> fit_affine demo_env (demo_state square_picks)
     = Inr \<lparr>aff_a = 20 / 49, aff_b = 0, aff_c = - (300 / 7),
            aff_d = 0, aff_e = - (10 / 21), aff_f = 465 / 28\<rparr>"
proof -
  have "orderQuad square_picks = map Some (ordered_quad (\<lambda>p. p) square_picks)"
    by (simp add: orderQuad_def orderQuad_on_four square_picks_def)
  then have 1: "orderQuad square_picks
     = [Some \<lparr>px = 100, py = 100\<rparr>, Some \<lparr>px = 300, py = 100\<rparr>,
        Some \<lparr>px = 300, py = 300\<rparr>, Some \<lparr>px = 100, py = 300\<rparr>]"
    by (simp add: square_ordered)
  have 2: "src_corners (src_W demo_env (demo_state square_picks)) (src_H demo_env (demo_state square_picks))
     = [\<lparr>px = - 21, py = - 18\<rparr>, \<lparr>px = 21, py = - 18\<rparr>, \<lparr>px = 21, py = 18\<rparr>, \<lparr>px = - 21, py = 18\<rparr>]"
    by (simp add: demo_display src_corners_def)
  have 3: "corners_y_up (src_W demo_env (demo_state square_picks)) (src_H demo_env (demo_state square_picks))
     = [\<lparr>px = - 21, py = 18\<rparr>, \<lparr>px = 21, py = 18\<rparr>, \<lparr>px = 21, py = - 18\<rparr>, \<lparr>px = - 21, py = - 18\<rparr>]"
    by (simp add: demo_display corners_y_up_def)
  have 0: "src_corners (src_W demo_env (demo_state square_picks)) (src_H demo_env (demo_state square_picks))
     \<noteq> corners_y_up (src_W demo_env (demo_state square_picks))
                      (src_H demo_env (demo_state square_picks))"
    unfolding 2 3 by simp
  from 0 1 2 3 demo_targets demo_fit_affine show ?thesis by blast
qed

text \<open>
  C3, amended. With four picks and \<open>W, H > 0\<close>, the source corners handed to
  \<open>solveAffine\<close> are, in order, \<open>(-W/2, -H/2)\<close>, \<open>(W/2, -H/2)\<close>, \<open>(W/2, H/2)\<close>,
  \<open>(-W/2, H/2)\<close>: top-left, top-right, bottom-right, bottom-left in the y-down convention
  of the picked screen points, that is the y-up listing with \<open>y\<close> negated. They pair index
  for index with the ordered picks, which \<open>screenToWorld\<close> has mapped into a y-up space (it
  reverses the vertical order). Against the y-up listing the solved affine map differs
  only in the sign of \<open>b\<close> and \<open>e\<close>, and the object passed to \<open>set\<close> is the same.
\<close>

theorem source_corners_screen_order:
  assumes "length (fitPoints S) = 4" and "0 < src_W env S" and "0 < src_H env S"
  shows "\<exists>ordered aff.
           orderQuad (fitPoints S) = map Some ordered
         \<and> src_corners (src_W env S) (src_H env S)
             = [\<lparr>px = - src_W env S / 2, py = - src_H env S / 2\<rparr>,
                \<lparr>px = src_W env S / 2, py = - src_H env S / 2\<rparr>,
                \<lparr>px = src_W env S / 2, py = src_H env S / 2\<rparr>,
                \<lparr>px = - src_W env S / 2, py = src_H env S / 2\<rparr>]
         \<and> src_corners (src_W env S) (src_H env S)
             = map (\<lambda>p. p\<lparr>py := - py p\<rparr>) (corners_y_up (src_W env S) (src_H env S))
         \<and> solveAffine (src_corners (src_W env S) (src_H env S))
               (map (screenToWorld env S) ordered) = Inr aff
         \<and> solveAffine (corners_y_up (src_W env S) (src_H env S))
               (map (screenToWorld env S) ordered) = Inr (mirror aff)
         \<and> applyFourPointFit env S =
             ([Call_orderQuad, Call_getTextOnlyWorldSize, Call_solveAffine,
               Call_decomposeAffineToTRS, Call_set],
              Inr (Some (pose_patch (decomposeAffineToTRS aff))))
         \<and> pose_patch (decomposeAffineToTRS (mirror aff)) = pose_patch (decomposeAffineToTRS aff)
         \<and> (0 < imgW S \<and> 0 < imgH S \<longrightarrow>
              (\<forall>p q. py p < py q \<longrightarrow>
                 py (screenToWorld env S q) < py (screenToWorld env S p)))"
proof -
  let ?W = "src_W env S" and ?H = "src_H env S"
  from applyFourPointFit_solved[OF assms(1), of env] obtain ordered aff where
    oq: "orderQuad (fitPoints S) = map Some ordered"
    and sa: "solveAffine (src_corners ?W ?H) (map (screenToWorld env S) ordered) = Inr aff"
    and run: "applyFourPointFit env S =
            ([Call_orderQuad, Call_getTextOnlyWorldSize, Call_solveAffine,
              Call_decomposeAffineToTRS, Call_set],
             Inr (Some (pose_patch (decomposeAffineToTRS aff))))"
    by blast
  have "length (map Some ordered) = 4"
    unfolding oq[symmetric] by (simp add: orderQuad_def orderQuad_on_def pick4_def Let_def)
  then have len: "length (map (screenToWorld env S) ordered) = 4" by simp
  from solveAffine_y_up_mirror[OF assms(2,3) len] sa
  have up: "solveAffine (corners_y_up ?W ?H) (map (screenToWorld env S) ordered) = Inr (mirror aff)"
    by auto
  have list: "src_corners ?W ?H
             = [\<lparr>px = - ?W / 2, py = - ?H / 2\<rparr>, \<lparr>px = ?W / 2, py = - ?H / 2\<rparr>,
                \<lparr>px = ?W / 2, py = ?H / 2\<rparr>, \<lparr>px = - ?W / 2, py = ?H / 2\<rparr>]"
    by (simp add: src_corners_def)
  have flip: "src_corners ?W ?H = map (\<lambda>p. p\<lparr>py := - py p\<rparr>) (corners_y_up ?W ?H)"
    by (simp add: src_corners_def corners_y_up_def)
  have s2w: "0 < imgW S \<and> 0 < imgH S \<longrightarrow>
              (\<forall>p q. py p < py q \<longrightarrow>
                 py (screenToWorld env S q) < py (screenToWorld env S p))"
    using screenToWorld_flips[of S _ _ env] by blast
  show ?thesis
    apply (rule exI[of _ ordered], rule exI[of _ aff])
    using oq list flip sa up run pose_patch_mirror[of aff] s2w by blast
qed

theorem source_corners_screen_order_witness:
  "length (fitPoints (demo_state square_picks)) = 4
   \<and> 0 < src_W demo_env (demo_state square_picks) \<and> 0 < src_H demo_env (demo_state square_picks)
   \<and> (\<exists>ordered aff.
           orderQuad (fitPoints (demo_state square_picks)) = map Some ordered
         \<and> solveAffine (src_corners 42 36)
               (map (screenToWorld demo_env (demo_state square_picks)) ordered) = Inr aff
         \<and> solveAffine (corners_y_up 42 36)
               (map (screenToWorld demo_env (demo_state square_picks)) ordered) = Inr (mirror aff)
         \<and> applyFourPointFit demo_env (demo_state square_picks) =
             ([Call_orderQuad, Call_getTextOnlyWorldSize, Call_solveAffine,
               Call_decomposeAffineToTRS, Call_set],
              Inr (Some (pose_patch (decomposeAffineToTRS aff))))
         \<and> pose_patch (decomposeAffineToTRS (mirror aff)) = pose_patch (decomposeAffineToTRS aff))"
proof -
  have h: "length (fitPoints (demo_state square_picks)) = 4"
    "0 < src_W demo_env (demo_state square_picks)" "0 < src_H demo_env (demo_state square_picks)"
    by (simp_all add: demo_fitPoints square_picks_def demo_display)
  from source_corners_screen_order[OF h] h show ?thesis
    unfolding demo_display by blast
qed

subsection \<open>Four coincident picks\<close>

lemma ordered_quad_replicate: "ordered_quad get (replicate n p) = replicate n p"
proof (rule replicate_eqI)
  show "length (ordered_quad get (replicate n p)) = n" by simp
next
  fix y assume "y \<in> set (ordered_quad get (replicate n p))"
  moreover have "set (ordered_quad get (replicate n p)) = set (replicate n p)"
    by (metis mset_ordered_quad mset_eq_setD)
  ultimately have "y \<in> set (replicate n p)" by blast
  then show "y = p" by simp
qed

text \<open>
  Four coincident picks: the solved map is constant, both scales are zero, and the
  fallback \<open>|| 1\<close> sets \<open>signScale\<close> to \<open>1\<close>.
\<close>

theorem applyFourPointFit_no_error_witness:
  "length (fitPoints (demo_state (replicate 4 \<lparr>px = 7, py = 7\<rparr>))) = 4
   \<and> snd (applyFourPointFit demo_env (demo_state (replicate 4 \<lparr>px = 7, py = 7\<rparr>)))
       = Inr (Some \<lparr>patch_signTX = - (297 / 5), patch_signTY = 663 / 20, patch_signRZ = 0,
                    patch_signScale = 1, patch_fitMode = False, patch_fitPoints = []\<rparr>)
   \<and> signScale (after_applyFourPointFit demo_env
                   (demo_state (replicate 4 \<lparr>px = 7, py = 7\<rparr>)) (demo_state [])) = 1
   \<and> pivot_or_eps
         (inv_state (fit_normal demo_env (demo_state (replicate 4 \<lparr>px = 7, py = 7\<rparr>))) 5
          ! find_pivot (inv_state (fit_normal demo_env
                          (demo_state (replicate 4 \<lparr>px = 7, py = 7\<rparr>))) 5) 6 5 ! 5) \<noteq> 0
   \<and> inv [[0]] = [[10 ^ 9]]"
proof -
  let ?p = "\<lparr>px = 7, py = 7 :: real\<rparr>"
  let ?S = "demo_state (replicate 4 ?p)"
  let ?t = "\<lparr>px = - (297 / 5), py = 663 / 20 :: real\<rparr>"
  have h: "length (fitPoints ?S) = 4" by (simp add: demo_fitPoints)
  note inst = applyFourPointFit_no_error[OF h, of demo_env "demo_state []"]
  from inst obtain ordered aff where
    oq: "orderQuad (fitPoints ?S) = map Some ordered"
    and sa: "solveAffine (src_corners (src_W demo_env ?S) (src_H demo_env ?S))
               (map (screenToWorld demo_env ?S) ordered) = Inr aff"
    and run: "snd (applyFourPointFit demo_env ?S)
               = Inr (Some (pose_patch (decomposeAffineToTRS aff)))"
    and scale: "signScale (after_applyFourPointFit demo_env ?S (demo_state []))
              = max 0.05 (or_num ((hypot (aff_a aff) (aff_d aff)
                                   + hypot (aff_b aff) (aff_e aff)) / 2) 1)"
    by blast
  have "orderQuad (fitPoints ?S) = map Some (replicate 4 ?p)"
    by (simp add: demo_fitPoints orderQuad_def orderQuad_on_four ordered_quad_replicate)
  with oq have "map Some ordered = map Some (replicate 4 ?p)" by simp
  then have ordered: "ordered = replicate 4 ?p" by (simp only: inj_map_eq_map[OF inj_Some])
  have tgt: "map (screenToWorld demo_env ?S) ordered = [?t, ?t, ?t, ?t]"
    by (simp add: ordered demo_screenToWorld numeral_eq_Suc)
  have "solveAffine (src_corners 42 36) [?t, ?t, ?t, ?t]
      = Inr (affine_of (\<lambda>i. moment (design_matrix (src_corners 42 36))
                                  (target_vector [?t, ?t, ?t, ?t]) i
                               / [42 * 42, 36 * 36, 4, 42 * 42, 36 * 36, 4] ! i))"
    by (rule solveAffine_corners) simp_all
  also have "affine_of (\<lambda>i. moment (design_matrix (src_corners 42 36))
                                  (target_vector [?t, ?t, ?t, ?t]) i
                               / [42 * 42, 36 * 36, 4, 42 * 42, 36 * 36, 4] ! i)
           = \<lparr>aff_a = 0, aff_b = 0, aff_c = - (297 / 5), aff_d = 0, aff_e = 0, aff_f = 663 / 20\<rparr>"
    by (simp add: affine_of_def design_matrix_def target_vector_def src_corners_def moment_four)
  finally have "aff = \<lparr>aff_a = 0, aff_b = 0, aff_c = - (297 / 5),
                        aff_d = 0, aff_e = 0, aff_f = 663 / 20\<rparr>"
    using sa by (simp add: demo_display tgt)
  then have vals: "pose_patch (decomposeAffineToTRS aff)
      = \<lparr>patch_signTX = - (297 / 5), patch_signTY = 663 / 20, patch_signRZ = 0,
         patch_signScale = 1, patch_fitMode = False, patch_fitPoints = []\<rparr>"
    "max 0.05 (or_num ((hypot (aff_a aff) (aff_d aff) + hypot (aff_b aff) (aff_e aff)) / 2) 1) = 1"
    by (simp_all add: pose_patch_def decomposeAffineToTRS_def hypot_def atan2_def or_num_def)
  from inst have every: "\<forall>c<6. pivot_or_eps
                (inv_state (fit_normal demo_env ?S) c
                 ! find_pivot (inv_state (fit_normal demo_env ?S) c) 6 c ! c) \<noteq> 0"
    and z: "inv [[0]] = [[10 ^ 9]]"
    by blast+
  from every have piv: "pivot_or_eps
                (inv_state (fit_normal demo_env ?S) 5
                 ! find_pivot (inv_state (fit_normal demo_env ?S) 5) 6 5 ! 5) \<noteq> 0"
    by simp
  from h run scale piv z show ?thesis
    unfolding vals by blast
qed

subsection \<open>orderQuad on doubles: the order of the clicks\<close>

text \<open>Without rounding, and with the exact angle, this is the function of the first embedding.\<close>

lemma orderQuad_rnd_exact: "orderQuad_rnd (\<lambda>x. x) atan2 pts = orderQuad pts"
proof -
  have step: "best_step_rnd (\<lambda>x. x) = best_step"
    by (simp add: fun_eq_iff best_step_rnd_def best_step_def)
  have "start_index_rnd (\<lambda>x. x) = start_index"
    unfolding fun_eq_iff start_index_rnd_def start_index_def step by simp
  moreover have "centroid_x_rnd (\<lambda>x. x) pts = centroid_x (\<lambda>p. p) pts"
    "centroid_y_rnd (\<lambda>x. x) pts = centroid_y (\<lambda>p. p) pts"
    by (simp_all add: centroid_x_rnd_def centroid_y_rnd_def centroid_x_def centroid_y_def)
  moreover have "angle_key_rnd (\<lambda>x. x) atan2 = angle_key"
    by (simp add: fun_eq_iff angle_key_rnd_def angle_key_def)
  ultimately show ?thesis
    by (simp add: orderQuad_rnd_def orderQuad_def orderQuad_on_def)
qed

text \<open>
  The value of \<open>fl\<close> at a number whose binary exponent is known: \<open>k\<close> is the number of
  binary places of the result.
\<close>

lemma fl_eval:
  fixes k :: nat
  assumes "2 ^ 52 \<le> \<bar>x\<bar> * 2 ^ k" and "\<bar>x\<bar> * 2 ^ k < 2 ^ 53"
  shows "fl x = of_int (round_he (x * 2 ^ k)) / 2 ^ k"
proof -
  have nz: "x \<noteq> 0" using assms(1) by auto
  then have pos: "0 < \<bar>x\<bar>" by simp
  have "log 2 (\<bar>x\<bar> * 2 ^ k) = log 2 \<bar>x\<bar> + real k"
    using pos by (simp add: log_mult log_nat_power)
  moreover have "52 \<le> log 2 (\<bar>x\<bar> * 2 ^ k)"
    using assms(1) pos by (simp add: le_log_iff powr_realpow[symmetric] del: powr_realpow)
  moreover have "log 2 (\<bar>x\<bar> * 2 ^ k) < 53"
    using assms(2) pos by (simp add: log_less_iff)
  ultimately have "\<lfloor>log 2 \<bar>x\<bar>\<rfloor> = 52 - int k"
    by (intro floor_unique) simp_all
  then have "2 powr (of_int \<lfloor>log 2 \<bar>x\<bar>\<rfloor> - 52) = 2 powr (- real k)" by simp
  also have "\<dots> = 1 / 2 ^ k" by (simp add: powr_minus powr_realpow inverse_eq_divide)
  finally show ?thesis using nz by (simp add: fl_def Let_def)
qed

lemma fl_zero: "fl 0 = 0"
  by (simp add: fl_def)

lemma fl_values_41:
  "fl (22320965653155021 / 8796093022208) = 5580241413288755 / 2199023255552"
  "fl (11160482826577511 / 4398046511104) = 1395060353322189 / 549755813888"
  by (subst fl_eval[where k = 41]; simp add: round_he_def)+

lemma fl_values_42:
  "fl (10950256203346739 / 8796093022208) = 2737564050836685 / 2199023255552"
  "fl (16530497616635495 / 8796093022208) = 2066312202079437 / 1099511627776"
  "fl (8370362119933133 / 4398046511104) = 8370362119933133 / 4398046511104"
  by (subst fl_eval[where k = 42]; simp add: round_he_def)+

lemma fl_values_43:
  "fl (1221 / 2) = 1221 / 2"
  "fl (5580241413288755 / 8796093022208) = 5580241413288755 / 8796093022208"
  "fl (3172 / 5) = 5580241413288755 / 8796093022208"
  "fl (1395060353322189 / 2199023255552) = 1395060353322189 / 2199023255552"
  "fl (6583 / 10) = 2895234018259763 / 4398046511104"
  "fl (6228513469025485 / 8796093022208) = 6228513469025485 / 8796093022208"
  "fl 732 = 732"
  "fl (30065045949906943 / 35184372088832) = 1709 / 2"
  "fl (1709 / 2) = 1709 / 2"
  "fl (3968357366969139 / 4398046511104) = 3968357366969139 / 4398046511104"
  "fl 976 = 976"
  by (subst fl_eval[where k = 43]; simp add: round_he_def)+

lemma fl_values_44:
  "fl (2679 / 10) = 2356473320649523 / 8796093022208"
  "fl (16329067086426931 / 35184372088832) = 4082266771606733 / 8796093022208"
  by (subst fl_eval[where k = 44]; simp add: round_he_def)+

lemma fl_values_45:
  "fl (7744080296751923 / 35184372088832) = 7744080296751923 / 35184372088832"
  "fl (2201 / 10) = 7744080296751923 / 35184372088832"
  "fl 244 = 244"
  by (subst fl_eval[where k = 45]; simp add: round_he_def)+

lemma fl_values_48:
  "fl (- (52556655807693 / 2199023255552)) = - (52556655807693 / 2199023255552)"
  "fl (- (840906492923085 / 35184372088832)) = - (840906492923085 / 35184372088832)"
  "fl (- (210226623230771 / 8796093022208)) = - (210226623230771 / 8796093022208)"
  "fl (105113311615385 / 4398046511104) = 105113311615385 / 4398046511104"
  "fl (210226623230771 / 8796093022208) = 210226623230771 / 8796093022208"
  by (subst fl_eval[where k = 48]; simp add: round_he_def)+

lemma fl_values_95:
  "fl (- (1 / 8796093022208)) = - (1 / 8796093022208)"
  by (subst fl_eval[where k = 95]; simp add: round_he_def)+

lemmas fl_values = fl_zero fl_values_41 fl_values_42 fl_values_43 fl_values_44 fl_values_45 fl_values_48 fl_values_95

text \<open>The coordinates of the four picks, and the centroid computed in the two click orders.\<close>

lemma picks:
  "pick_left = \<lparr>px = 7744080296751923 / 35184372088832, py = 5580241413288755 / 8796093022208\<rparr>"
  "pick_top = \<lparr>px = 244, py = 1221 / 2\<rparr>"
  "pick_right = \<lparr>px = 2356473320649523 / 8796093022208, py = 5580241413288755 / 8796093022208\<rparr>"
  "pick_bottom = \<lparr>px = 244, py = 2895234018259763 / 4398046511104\<rparr>"
  by (simp_all add: pick_left_def pick_top_def pick_right_def pick_bottom_def fl_values)

lemma centroid_clicks:
  "centroid_x_rnd fl diamond_clicks = 244"
  "centroid_y_rnd fl diamond_clicks = 1395060353322189 / 2199023255552"
  by (simp_all add: centroid_x_rnd_def centroid_y_rnd_def diamond_clicks_def picks fl_values)

lemma centroid_clicks_swapped:
  "centroid_x_rnd fl diamond_clicks_swapped = 244"
  "centroid_y_rnd fl diamond_clicks_swapped = 5580241413288755 / 8796093022208"
  by (simp_all add: centroid_x_rnd_def centroid_y_rnd_def diamond_clicks_swapped_def picks fl_values)

lemma sort_key_ascending:
  assumes "f a < f b" and "f b < f c" and "f c < f d"
  shows "sort_key f [a, b, c, d] = [a, b, c, d]"
proof (rule sort_key_id_if_sorted)
  have "f a \<le> f b" "f a \<le> f c" "f a \<le> f d" "f b \<le> f c" "f b \<le> f d" "f c \<le> f d"
    using assms by auto
  then show "sorted (map f [a, b, c, d])" by simp
qed

lemma length_clicks: "length diamond_clicks = 4" "length diamond_clicks_swapped = 4"
  by (simp_all add: diamond_clicks_def diamond_clicks_swapped_def)

lemma mset_clicks: "mset diamond_clicks_swapped = mset diamond_clicks"
  by (simp add: diamond_clicks_def diamond_clicks_swapped_def)

text \<open>The rounded differences that are handed to \<^verbatim>\<open>Math.atan2\<close>, in the two click orders.\<close>

lemma diffs_clicks:
  "angle_key_rnd fl at2 244 (1395060353322189 / 2199023255552) pick_left
     = at2 (- (1 / 8796093022208)) (- (840906492923085 / 35184372088832))"
  "angle_key_rnd fl at2 244 (1395060353322189 / 2199023255552) pick_top
     = at2 (- (52556655807693 / 2199023255552)) 0"
  "angle_key_rnd fl at2 244 (1395060353322189 / 2199023255552) pick_right
     = at2 (- (1 / 8796093022208)) (210226623230771 / 8796093022208)"
  "angle_key_rnd fl at2 244 (1395060353322189 / 2199023255552) pick_bottom
     = at2 (105113311615385 / 4398046511104) 0"
  by (simp_all add: angle_key_rnd_def picks fl_values)

lemma diffs_clicks_swapped:
  "angle_key_rnd fl at2 244 (5580241413288755 / 8796093022208) pick_left
     = at2 0 (- (840906492923085 / 35184372088832))"
  "angle_key_rnd fl at2 244 (5580241413288755 / 8796093022208) pick_top
     = at2 (- (210226623230771 / 8796093022208)) 0"
  "angle_key_rnd fl at2 244 (5580241413288755 / 8796093022208) pick_right
     = at2 0 (210226623230771 / 8796093022208)"
  "angle_key_rnd fl at2 244 (5580241413288755 / 8796093022208) pick_bottom
     = at2 (210226623230771 / 8796093022208) 0"
  by (simp_all add: angle_key_rnd_def picks fl_values)

lemma atan2_clicks:
  "atan2 (- (1 / 8796093022208)) (- (840906492923085 / 35184372088832))
     = arctan (4 / 840906492923085) - pi"
  "atan2 (- (52556655807693 / 2199023255552)) 0 = - (pi / 2)"
  "atan2 (- (1 / 8796093022208)) (210226623230771 / 8796093022208)
     = arctan (- (1 / 210226623230771))"
  "atan2 (105113311615385 / 4398046511104) 0 = pi / 2"
  by (simp_all add: atan2_def)

lemma atan2_clicks_swapped:
  "atan2 0 (- (840906492923085 / 35184372088832)) = pi"
  "atan2 (- (210226623230771 / 8796093022208)) 0 = - (pi / 2)"
  "atan2 0 (210226623230771 / 8796093022208) = 0"
  "atan2 (210226623230771 / 8796093022208) 0 = pi / 2"
  by (simp_all add: atan2_def)

lemma small_arctan:
  assumes "\<bar>t\<bar> < 1"
  shows "- (pi / 4) < arctan t" "arctan t < pi / 4"
proof -
  have "arctan (- 1) < arctan t" "arctan t < arctan 1"
    using assms by (simp_all only: arctan_less_iff abs_less_iff) linarith+
  then show "- (pi / 4) < arctan t" "arctan t < pi / 4"
    by (simp_all add: arctan_minus arctan_one)
qed

text \<open>
  The keys of the two runs are more than \<open>1/2\<close> apart, so an implementation \<open>at2\<close> of
  \<^verbatim>\<open>Math.atan2\<close> that is within \<open>1/4\<close> of the exact angle sorts as the exact angle does.
\<close>

lemma sorted_clicks:
  assumes "\<forall>v u. \<bar>at2 v u - atan2 v u\<bar> \<le> 1 / 4"
  shows "sort_key (angle_key_rnd fl at2 244 (1395060353322189 / 2199023255552)) diamond_clicks
         = [pick_left, pick_top, pick_right, pick_bottom]"
  unfolding diamond_clicks_def
proof (rule sort_key_ascending; unfold diffs_clicks)
  note a = small_arctan[of "4 / 840906492923085"] and b = small_arctan[of "- (1 / 210226623230771)"]
  have near: "atan2 v u - 1 / 4 \<le> at2 v u \<and> at2 v u \<le> atan2 v u + 1 / 4" for v u
    using assms[rule_format, of v u] by (simp only: abs_le_iff) linarith
  note l = near[of "- (1 / 8796093022208)" "- (840906492923085 / 35184372088832)"]
  note t = near[of "- (52556655807693 / 2199023255552)" 0]
  note r = near[of "- (1 / 8796093022208)" "210226623230771 / 8796093022208"]
  note bt = near[of "105113311615385 / 4398046511104" 0]
  have a': "arctan (4 / 840906492923085) < pi / 4" using a by simp
  have b': "- (pi / 4) < arctan (- (1 / 210226623230771))" "arctan (- (1 / 210226623230771)) < pi / 4"
    using b by simp_all
  show "at2 (- (1 / 8796093022208)) (- (840906492923085 / 35184372088832))
      < at2 (- (52556655807693 / 2199023255552)) 0"
    using l t a' pi_ge_two unfolding atan2_clicks by linarith
  show "at2 (- (52556655807693 / 2199023255552)) 0
      < at2 (- (1 / 8796093022208)) (210226623230771 / 8796093022208)"
    using t r b' pi_ge_two unfolding atan2_clicks by linarith
  show "at2 (- (1 / 8796093022208)) (210226623230771 / 8796093022208)
      < at2 (105113311615385 / 4398046511104) 0"
    using r bt b' pi_ge_two unfolding atan2_clicks by linarith
qed

lemma sorted_clicks_swapped:
  assumes "\<forall>v u. \<bar>at2 v u - atan2 v u\<bar> \<le> 1 / 4"
  shows "sort_key (angle_key_rnd fl at2 244 (5580241413288755 / 8796093022208))
           diamond_clicks_swapped
         = [pick_top, pick_right, pick_bottom, pick_left]"
proof -
  let ?f = "angle_key_rnd fl at2 244 (5580241413288755 / 8796093022208)"
  have near: "atan2 v u - 1 / 4 \<le> at2 v u \<and> at2 v u \<le> atan2 v u + 1 / 4" for v u
    using assms[rule_format, of v u] by (simp only: abs_le_iff) linarith
  note l = near[of 0 "- (840906492923085 / 35184372088832)"]
  note t = near[of "- (210226623230771 / 8796093022208)" 0]
  note r = near[of 0 "210226623230771 / 8796093022208"]
  note bt = near[of "210226623230771 / 8796093022208" 0]
  have asc: "?f pick_top < ?f pick_right" "?f pick_right < ?f pick_bottom"
    "?f pick_bottom < ?f pick_left"
    unfolding diffs_clicks_swapped
    using l t r bt pi_ge_two unfolding atan2_clicks_swapped by linarith+
  have "sort_key ?f diamond_clicks_swapped
      = sort_key ?f [pick_top, pick_right, pick_bottom, pick_left]"
  proof (rule sort_key_perm)
    show "mset diamond_clicks_swapped = mset [pick_top, pick_right, pick_bottom, pick_left]"
      by (simp add: diamond_clicks_swapped_def)
    show "distinct (map ?f [pick_top, pick_right, pick_bottom, pick_left])"
      using asc by auto
  qed
  also have "\<dots> = [pick_top, pick_right, pick_bottom, pick_left]"
    using asc by (rule sort_key_ascending)
  finally show ?thesis .
qed

lemma xy_rounded:
  "fl (px pick_left + py pick_left) = 1709 / 2"
  "fl (px pick_top + py pick_top) = 1709 / 2"
  "fl (px pick_right + py pick_right) = 3968357366969139 / 4398046511104"
  "fl (px pick_bottom + py pick_bottom) = 3968357366969139 / 4398046511104"
  by (simp_all add: picks fl_values)

lemma start_clicks:
  "start_index_rnd fl [pick_left, pick_top, pick_right, pick_bottom] = 0"
  "start_index_rnd fl [pick_top, pick_right, pick_bottom, pick_left] = 0"
  by (simp_all add: start_index_rnd_def best_step_rnd_def xy_rounded)

lemma orderQuad_clicks_near:
  assumes "\<forall>v u. \<bar>at2 v u - atan2 v u\<bar> \<le> 1 / 4"
  shows "orderQuad_rnd fl at2 diamond_clicks
           = [Some pick_left, Some pick_top, Some pick_right, Some pick_bottom]"
    and "orderQuad_rnd fl at2 diamond_clicks_swapped
           = [Some pick_top, Some pick_right, Some pick_bottom, Some pick_left]"
  by (simp_all add: orderQuad_rnd_def centroid_clicks centroid_clicks_swapped
      sorted_clicks[OF assms] sorted_clicks_swapped[OF assms] start_clicks pick4_def nth_opt_def
      length_clicks Let_def)

lemma orderQuad_clicks:
  "orderQuad_rnd fl atan2 diamond_clicks
     = [Some pick_left, Some pick_top, Some pick_right, Some pick_bottom]"
  "orderQuad_rnd fl atan2 diamond_clicks_swapped
     = [Some pick_top, Some pick_right, Some pick_bottom, Some pick_left]"
  by (rule orderQuad_clicks_near; simp)+

text \<open>The four picks as a point set: exact centroid, exact angles, exact sums.\<close>

lemma exact_centroid_clicks:
  "sum_list (map px diamond_clicks) / 4 = 34339947158700031 / 140737488355328"
  "sum_list (map py diamond_clicks) / 4 = 5580241413288755 / 8796093022208"
  by (simp_all add: diamond_clicks_def picks)

lemma exact_angles_clicks:
  "map (\<lambda>p. atan2 (py p - sum_list (map py diamond_clicks) / 4)
                  (px p - sum_list (map px diamond_clicks) / 4)) diamond_clicks
   = [pi, arctan (- 3363625971692336), 0, arctan 3363625971692336]"
  unfolding exact_centroid_clicks
  by (simp add: diamond_clicks_def picks atan2_def)

lemma exact_sums_clicks:
  "xy_sum pick_left < xy_sum pick_top"
  "xy_sum pick_left < xy_sum pick_right"
  "xy_sum pick_left < xy_sum pick_bottom"
  by (simp_all add: xy_sum_def picks)

text \<open>The angles computed in the two runs are pairwise distinct.\<close>

lemma computed_angles_clicks:
  "distinct (map (angle_key_rnd fl atan2 (centroid_x_rnd fl diamond_clicks)
                                        (centroid_y_rnd fl diamond_clicks)) diamond_clicks)"
proof -
  have gen: "distinct [a - t, - (t / 2), b, t / 2]"
    if "0 < t" "a < t / 4" "- (t / 4) < b" "b < t / 4" for t a b :: real
    using that by auto
  have keys: "map (angle_key_rnd fl atan2 (centroid_x_rnd fl diamond_clicks)
                                       (centroid_y_rnd fl diamond_clicks)) diamond_clicks
      = [arctan (4 / 840906492923085) - pi, - (pi / 2),
         arctan (- (1 / 210226623230771)), pi / 2]"
    unfolding centroid_clicks by (simp add: diamond_clicks_def diffs_clicks atan2_clicks)
  show ?thesis
    unfolding keys by (rule gen[OF pi_gt_zero]; rule small_arctan; simp)
qed

lemma computed_angles_clicks_swapped:
  "distinct (map (angle_key_rnd fl atan2 (centroid_x_rnd fl diamond_clicks_swapped)
                                        (centroid_y_rnd fl diamond_clicks_swapped))
               diamond_clicks_swapped)"
proof -
  have gen: "distinct [t, - (t / 2), t / 2, 0]" if "0 < t" for t :: real
    using that by auto
  have keys: "map (angle_key_rnd fl atan2 (centroid_x_rnd fl diamond_clicks_swapped)
                                       (centroid_y_rnd fl diamond_clicks_swapped))
                diamond_clicks_swapped
      = [pi, - (pi / 2), pi / 2, 0]"
    unfolding centroid_clicks_swapped
    by (simp add: diamond_clicks_swapped_def diffs_clicks_swapped atan2_clicks_swapped)
  show ?thesis
    unfolding keys by (rule gen[OF pi_gt_zero])
qed

text \<open>
  The affine maps solved, in exact arithmetic, from the two sequences that the two runs
  return, and the sign of the rotation decomposed from them.
\<close>

lemma diamond_fit:
  "solveAffine (src_corners 42 36)
     (map (screenToWorld demo_env (demo_state pts))
        [pick_left, pick_top, pick_right, pick_bottom])
   = Inr \<lparr>aff_a = 1681812985846169 / 34480684647055360,
          aff_b = 1681812985846169 / 29554872554618880,
          aff_c = - (192528884070088707 / 4925812092436480),
          aff_d = 30032374747253 / 615726511554560,
          aff_e = - (30032374747253 / 527765581332480),
          aff_f = - (1270067871476613 / 61572651155456)\<rparr>"
  by (subst solveAffine_corners[where W = 42 and H = 36])
     (simp_all add: picks demo_screenToWorld affine_of_def design_matrix_def target_vector_def
        src_corners_def moment_four)

lemma diamond_fit_swapped:
  "solveAffine (src_corners 42 36)
     (map (screenToWorld demo_env (demo_state pts))
        [pick_top, pick_right, pick_bottom, pick_left])
   = Inr \<lparr>aff_a = 1681812985846169 / 34480684647055360,
          aff_b = - (1681812985846169 / 29554872554618880),
          aff_c = - (192528884070088707 / 4925812092436480),
          aff_d = - (30032374747253 / 615726511554560),
          aff_e = - (30032374747253 / 527765581332480),
          aff_f = - (1270067871476613 / 61572651155456)\<rparr>"
  by (subst solveAffine_corners[where W = 42 and H = 36])
     (simp_all add: picks demo_screenToWorld affine_of_def design_matrix_def target_vector_def
        src_corners_def moment_four)

lemma diamond_rotations:
  "0 < atan2 (30032374747253 / 615726511554560) (1681812985846169 / 34480684647055360)"
  "atan2 (- (30032374747253 / 615726511554560)) (1681812985846169 / 34480684647055360) < 0"
  by (simp_all add: atan2_def zero_less_arctan_iff arctan_less_zero_iff)

text \<open>
  C5, as claimed: for four points with pairwise distinct angles about their centroid and a
  unique minimiser of \<open>x + y\<close>, \<open>orderQuad\<close> returns the same sequence for every
  permutation of the points. On doubles this fails. The four picks \<open>(220.1, 634.4)\<close>,
  \<open>(244, 610.5)\<close>, \<open>(267.9, 634.4)\<close>, \<open>(244, 658.3)\<close> have pairwise distinct angles about
  their centroid, and the left one alone minimises \<open>x + y\<close>. Clicked in this order, the sum
  of the \<open>y\<close> rounds up and the \<open>y\<close> of the computed centroid is one unit in the last place
  greater than that of the left and right picks; with the last two clicks exchanged the
  two are equal. The angle of the left pick
  is just above \<open>-\<pi>\<close> in the first run and \<open>\<pi>\<close> in the second, so the sorted arrays differ
  by a rotation; the rounded sums \<open>x + y\<close> of the left and the top pick are both \<open>854.5\<close>,
  and each run starts at the first of the two in its sorted array. The results are
  left, top, right, bottom and top, right, bottom, left. Solved from these two sequences
  (this part in exact arithmetic), the rotation written to \<open>signRZ\<close> is positive for the
  first and negative for the second.
\<close>

theorem orderQuad_rounded_order_dependent:
  "length diamond_clicks = 4
   \<and> mset diamond_clicks_swapped = mset diamond_clicks
   \<and> distinct (map (\<lambda>p. atan2 (py p - sum_list (map py diamond_clicks) / 4)
                                (px p - sum_list (map px diamond_clicks) / 4)) diamond_clicks)
   \<and> xy_sum pick_left < xy_sum pick_top
   \<and> xy_sum pick_left < xy_sum pick_right
   \<and> xy_sum pick_left < xy_sum pick_bottom
   \<and> distinct (map (angle_key_rnd fl atan2 (centroid_x_rnd fl diamond_clicks)
                                           (centroid_y_rnd fl diamond_clicks)) diamond_clicks)
   \<and> distinct (map (angle_key_rnd fl atan2 (centroid_x_rnd fl diamond_clicks_swapped)
                                           (centroid_y_rnd fl diamond_clicks_swapped))
                  diamond_clicks_swapped)
   \<and> fl (px pick_left + py pick_left) = fl (px pick_top + py pick_top)
   \<and> centroid_y_rnd fl diamond_clicks = 1395060353322189 / 2199023255552
   \<and> centroid_y_rnd fl diamond_clicks_swapped = 5580241413288755 / 8796093022208
   \<and> orderQuad_rnd fl atan2 diamond_clicks
       = [Some pick_left, Some pick_top, Some pick_right, Some pick_bottom]
   \<and> orderQuad_rnd fl atan2 diamond_clicks_swapped
       = [Some pick_top, Some pick_right, Some pick_bottom, Some pick_left]
   \<and> orderQuad_rnd fl atan2 diamond_clicks_swapped \<noteq> orderQuad_rnd fl atan2 diamond_clicks
   \<and> (\<exists>aff aff'.
          solveAffine (src_corners (src_W demo_env (demo_state diamond_clicks))
                                   (src_H demo_env (demo_state diamond_clicks)))
            (map (screenToWorld demo_env (demo_state diamond_clicks))
               [pick_left, pick_top, pick_right, pick_bottom]) = Inr aff
        \<and> solveAffine (src_corners (src_W demo_env (demo_state diamond_clicks_swapped))
                                   (src_H demo_env (demo_state diamond_clicks_swapped)))
            (map (screenToWorld demo_env (demo_state diamond_clicks_swapped))
               [pick_top, pick_right, pick_bottom, pick_left]) = Inr aff'
        \<and> 0 < patch_signRZ (pose_patch (decomposeAffineToTRS aff))
        \<and> patch_signRZ (pose_patch (decomposeAffineToTRS aff')) < 0)"
proof -
  have gen: "distinct [t, m, 0, b]" if "m < 0" "0 < b" "b < t / 2" "0 < t" for t m b :: real
    using that by auto
  have "arctan (- 3363625971692336) < 0" "0 < arctan 3363625971692336"
    by (simp_all only: arctan_less_zero_iff zero_less_arctan_iff)
  from gen[OF this arctan_ubound pi_gt_zero]
  have d: "distinct [pi, arctan (- 3363625971692336), 0, arctan 3363625971692336]" .
  have "pick_left \<noteq> pick_top"
    by (simp add: picks)
  then have differ: "orderQuad_rnd fl atan2 diamond_clicks_swapped
                   \<noteq> orderQuad_rnd fl atan2 diamond_clicks"
    by (simp add: orderQuad_clicks)
  have tie: "fl (px pick_left + py pick_left) = fl (px pick_top + py pick_top)"
    by (simp add: xy_rounded)
  from d have exact: "distinct (map (\<lambda>p. atan2 (py p - sum_list (map py diamond_clicks) / 4)
                                (px p - sum_list (map px diamond_clicks) / 4)) diamond_clicks)"
    unfolding exact_angles_clicks .
  have poses: "\<exists>aff aff'.
          solveAffine (src_corners (src_W demo_env (demo_state diamond_clicks))
                                   (src_H demo_env (demo_state diamond_clicks)))
            (map (screenToWorld demo_env (demo_state diamond_clicks))
               [pick_left, pick_top, pick_right, pick_bottom]) = Inr aff
        \<and> solveAffine (src_corners (src_W demo_env (demo_state diamond_clicks_swapped))
                                   (src_H demo_env (demo_state diamond_clicks_swapped)))
            (map (screenToWorld demo_env (demo_state diamond_clicks_swapped))
               [pick_top, pick_right, pick_bottom, pick_left]) = Inr aff'
        \<and> 0 < patch_signRZ (pose_patch (decomposeAffineToTRS aff))
        \<and> patch_signRZ (pose_patch (decomposeAffineToTRS aff')) < 0"
    unfolding demo_display diamond_fit diamond_fit_swapped
    using diamond_rotations by (simp add: pose_patch_def decomposeAffineToTRS_def)
  show ?thesis
    using length_clicks(1) mset_clicks exact exact_sums_clicks computed_angles_clicks
      computed_angles_clicks_swapped tie centroid_clicks(2) centroid_clicks_swapped(2)
      orderQuad_clicks differ poses
    by blast
qed

text \<open>
  A number \<open>m / 2\<^sup>j\<close> with \<open>|m| < 2\<^sup>5\<^sup>3\<close> is a double, and \<open>fl\<close> leaves it as it is. So the
  sums of integer coordinates up to \<open>2\<^sup>5\<^sup>0\<close> in size are exact, the computed centroid is
  the arithmetic mean, and every permutation of such picks has the same one.
\<close>

lemma round_he_of_int: "round_he (of_int m) = m"
  by (simp add: round_he_def)

lemma fl_exact:
  assumes "\<bar>m\<bar> < 2 ^ 53"
  shows "fl (of_int m / 2 ^ j) = of_int m / 2 ^ j"
proof (cases "m = 0")
  case True
  then show ?thesis by (simp add: fl_def)
next
  case False
  let ?x = "of_int m / 2 ^ j :: real"
  define e where "e = \<lfloor>log 2 \<bar>?x\<bar>\<rfloor>"
  have nz: "?x \<noteq> 0" using False by simp
  have "\<bar>of_int m :: real\<bar> < 2 ^ 53"
    using assms by (metis of_int_abs of_int_less_numeral_power_cancel_iff)
  then have "\<bar>?x\<bar> < 2 ^ 53 / 2 ^ j"
    by (simp add: divide_strict_right_mono)
  also have "\<dots> = 2 powr (53 - real j)"
    by (simp add: powr_diff powr_realpow)
  finally have "log 2 \<bar>?x\<bar> < 53 - real j"
    using nz by (simp add: log_less_iff)
  then have "log 2 \<bar>?x\<bar> < of_int (53 - int j)" by simp
  then have le: "e \<le> 52 - int j"
    unfolding e_def by (simp only: floor_less_iff[symmetric])
  define n where "n = nat (52 - int j - e)"
  have "real_of_int e - 52 = - real (j + n)"
    using le by (simp add: n_def)
  then have "2 powr (real_of_int e - 52) = 2 powr (- real (j + n))"
    by (simp only:)
  also have "\<dots> = inverse (2 powr real (j + n))"
    by (rule powr_minus)
  also have "2 powr real (j + n) = (2 :: real) ^ (j + n)"
    by (rule powr_realpow) simp
  also have "inverse ((2 :: real) ^ (j + n)) = 1 / (2 ^ j * 2 ^ n)"
    by (simp only: power_add inverse_eq_divide)
  finally have u: "2 powr (real_of_int e - 52) = 1 / (2 ^ j * 2 ^ n :: real)" .
  have "?x / 2 powr (of_int e - 52) = of_int (m * 2 ^ n)"
    unfolding u by simp
  then have "round_he (?x / 2 powr (of_int e - 52)) = m * 2 ^ n"
    by (simp only: round_he_of_int)
  then show ?thesis
    using nz unfolding fl_def e_def[symmetric] Let_def u by simp
qed

lemma fl_of_int: "\<bar>m\<bar> < 2 ^ 53 \<Longrightarrow> fl (of_int m) = of_int m"
  using fl_exact[of m 0] by simp

text \<open>Equal computed centroids and distinct computed angles give the same sorted array.\<close>

lemma orderQuad_rnd_perm:
  assumes "mset qs = mset pts"
    and "centroid_x_rnd rnd qs = centroid_x_rnd rnd pts"
    and "centroid_y_rnd rnd qs = centroid_y_rnd rnd pts"
    and "distinct (map (angle_key_rnd rnd at2 (centroid_x_rnd rnd pts) (centroid_y_rnd rnd pts)) pts)"
  shows "orderQuad_rnd rnd at2 qs = orderQuad_rnd rnd at2 pts"
  unfolding orderQuad_rnd_def assms(2,3)
  using sort_key_perm[OF assms(1,4)] by (simp add: Let_def)

lemma fl_sum_integers:
  assumes "\<forall>v \<in> set vs. \<exists>a. v = of_int a \<and> \<bar>a\<bar> \<le> B"
    and "\<bar>s\<bar> + int (length vs) * B < 2 ^ 53"
  shows "\<exists>m. foldl (\<lambda>acc v. fl (acc + v)) (of_int s) vs = of_int m
           \<and> of_int m = of_int s + sum_list vs
           \<and> \<bar>m\<bar> \<le> \<bar>s\<bar> + int (length vs) * B"
  using assms
proof (induction vs arbitrary: s)
  case Nil
  then show ?case by simp
next
  case (Cons v vs)
  from Cons.prems(1) obtain a where a: "v = of_int a" "\<bar>a\<bar> \<le> B" by auto
  have bound: "\<bar>s + a\<bar> + int (length vs) * B \<le> \<bar>s\<bar> + int (length (v # vs)) * B"
    using a(2) by (simp add: algebra_simps)
  have "0 \<le> B" using a(2) by linarith
  then have "0 \<le> int (length vs) * B" by simp
  with bound Cons.prems(2) have small: "\<bar>s + a\<bar> < 2 ^ 53" by linarith
  have step: "fl (real_of_int s + real_of_int a) = real_of_int s + real_of_int a"
    using fl_of_int[OF small] by simp
  have "\<exists>m. foldl (\<lambda>acc v. fl (acc + v)) (of_int (s + a)) vs = of_int m
           \<and> of_int m = of_int (s + a) + sum_list vs
           \<and> \<bar>m\<bar> \<le> \<bar>s + a\<bar> + int (length vs) * B"
    using Cons.prems bound by (intro Cons.IH) auto
  then obtain m where m: "foldl (\<lambda>acc v. fl (acc + v)) (of_int (s + a)) vs = of_int m"
    "of_int m = of_int (s + a) + sum_list vs" "\<bar>m\<bar> \<le> \<bar>s + a\<bar> + int (length vs) * B"
    by blast
  show ?case
    apply (rule exI[of _ m])
    using m bound by (simp add: step a(1))
qed

lemma fl_mean_integers:
  assumes "length vs = 4"
    and "\<forall>v \<in> set vs. \<exists>a. v = of_int a \<and> \<bar>a\<bar> \<le> 2 ^ 50"
  shows "fl (foldl (\<lambda>acc v. fl (acc + v)) 0 vs / real (length vs)) = sum_list vs / 4"
proof -
  have "\<bar>0 :: int\<bar> + int (length vs) * 2 ^ 50 < 2 ^ 53" using assms(1) by simp
  from fl_sum_integers[OF assms(2) this]
  obtain m where m: "foldl (\<lambda>acc v. fl (acc + v)) 0 vs = of_int m"
    "of_int m = sum_list vs" "\<bar>m\<bar> \<le> int (length vs) * 2 ^ 50"
    by auto
  have "\<bar>m\<bar> < 2 ^ 53" using m(3) assms(1) by simp
  from fl_exact[OF this, of 2] show ?thesis
    using assms(1) by (simp add: m(1) m(2)[symmetric])
qed

lemma centroid_rnd_integers:
  assumes "length pts = 4"
    and "\<forall>p \<in> set pts. \<exists>a b. px p = of_int a \<and> py p = of_int b \<and> \<bar>a\<bar> \<le> 2 ^ 50 \<and> \<bar>b\<bar> \<le> 2 ^ 50"
  shows "centroid_x_rnd fl pts = sum_list (map px pts) / 4"
    and "centroid_y_rnd fl pts = sum_list (map py pts) / 4"
proof -
  have fm: "foldl (\<lambda>s p. fl (s + f p)) a ps = foldl (\<lambda>acc v. fl (acc + v)) a (map f ps)"
    for f :: "point \<Rightarrow> real" and a ps
    by (induction ps arbitrary: a) simp_all
  have x: "\<forall>v \<in> set (map px pts). \<exists>a. v = of_int a \<and> \<bar>a\<bar> \<le> 2 ^ 50"
    and y: "\<forall>v \<in> set (map py pts). \<exists>a. v = of_int a \<and> \<bar>a\<bar> \<le> 2 ^ 50"
    using assms(2) by fastforce+
  show "centroid_x_rnd fl pts = sum_list (map px pts) / 4"
    using fl_mean_integers[OF _ x] assms(1) by (simp add: centroid_x_rnd_def fm)
  show "centroid_y_rnd fl pts = sum_list (map py pts) / 4"
    using fl_mean_integers[OF _ y] assms(1) by (simp add: centroid_y_rnd_def fm)
qed

lemma orderQuad_rnd_integer_picks:
  assumes "length pts = 4"
    and "mset qs = mset pts"
    and "\<forall>p \<in> set pts. \<exists>a b. px p = of_int a \<and> py p = of_int b \<and> \<bar>a\<bar> \<le> 2 ^ 50 \<and> \<bar>b\<bar> \<le> 2 ^ 50"
    and "distinct (map (angle_key_rnd fl at2 (sum_list (map px pts) / 4)
                                             (sum_list (map py pts) / 4)) pts)"
  shows "orderQuad_rnd fl at2 qs = orderQuad_rnd fl at2 pts"
proof -
  have lq: "length qs = 4" using assms(1,2) by (metis mset_eq_length)
  have iq: "\<forall>p \<in> set qs. \<exists>a b. px p = of_int a \<and> py p = of_int b \<and> \<bar>a\<bar> \<le> 2 ^ 50 \<and> \<bar>b\<bar> \<le> 2 ^ 50"
    using assms(3) mset_eq_setD[OF assms(2)] by simp
  note cp = centroid_rnd_integers[OF assms(1,3)] and cq = centroid_rnd_integers[OF lq iq]
  show ?thesis
  proof (rule orderQuad_rnd_perm[OF assms(2)])
    show "centroid_x_rnd fl qs = centroid_x_rnd fl pts"
      unfolding cp cq using sum_list_mset_cong[OF assms(2)] by simp
    show "centroid_y_rnd fl qs = centroid_y_rnd fl pts"
      unfolding cp cq using sum_list_mset_cong[OF assms(2)] by simp
    show "distinct (map (angle_key_rnd fl at2 (centroid_x_rnd fl pts) (centroid_y_rnd fl pts)) pts)"
      unfolding cp using assms(4) .
  qed
qed

text \<open>
  C5, amended. Let \<open>qs\<close> be a permutation of four points \<open>pts\<close>. If the centroid that
  \<open>orderQuad\<close> computes, by summing the coordinates in the order of the array and rounding
  each sum, is the same for \<open>qs\<close> as for \<open>pts\<close>, and the angles computed about that centroid
  are pairwise distinct, then \<open>orderQuad\<close> returns the same sequence for \<open>qs\<close> as for
  \<open>pts\<close>. This holds for every rounding \<open>rnd\<close> and every implementation \<open>at2\<close> of
  \<^verbatim>\<open>Math.atan2\<close>. The uniqueness of the minimiser of \<open>x + y\<close> is not needed: after the sort
  both arrays are equal, and \<open>start\<close> is computed from the sorted array.
\<close>

theorem orderQuad_rnd_order_invariant:
  assumes "length pts = 4"
    and "mset qs = mset pts"
    and "centroid_x_rnd rnd qs = centroid_x_rnd rnd pts"
    and "centroid_y_rnd rnd qs = centroid_y_rnd rnd pts"
    and "distinct (map (angle_key_rnd rnd at2 (centroid_x_rnd rnd pts) (centroid_y_rnd rnd pts)) pts)"
  shows "orderQuad_rnd rnd at2 qs = orderQuad_rnd rnd at2 pts"
  using assms(2-5) by (rule orderQuad_rnd_perm)

text \<open>
  The four picks of the diamond with the first two clicks exchanged: the first rounded
  sum is the same, and so is the centroid.
\<close>

theorem orderQuad_rnd_order_invariant_witness:
  "length diamond_clicks = 4
   \<and> mset [pick_top, pick_left, pick_right, pick_bottom] = mset diamond_clicks
   \<and> centroid_x_rnd fl [pick_top, pick_left, pick_right, pick_bottom]
       = centroid_x_rnd fl diamond_clicks
   \<and> centroid_y_rnd fl [pick_top, pick_left, pick_right, pick_bottom]
       = centroid_y_rnd fl diamond_clicks
   \<and> distinct (map (angle_key_rnd fl atan2 (centroid_x_rnd fl diamond_clicks)
                                          (centroid_y_rnd fl diamond_clicks)) diamond_clicks)
   \<and> orderQuad_rnd fl atan2 [pick_top, pick_left, pick_right, pick_bottom]
       = orderQuad_rnd fl atan2 diamond_clicks"
proof -
  let ?qs = "[pick_top, pick_left, pick_right, pick_bottom]"
  have h1: "length diamond_clicks = 4" by (rule length_clicks)
  have h2: "mset ?qs = mset diamond_clicks" by (simp add: diamond_clicks_def)
  have h3: "centroid_x_rnd fl ?qs = centroid_x_rnd fl diamond_clicks"
    unfolding centroid_clicks by (simp add: centroid_x_rnd_def picks fl_values)
  have h4: "centroid_y_rnd fl ?qs = centroid_y_rnd fl diamond_clicks"
    unfolding centroid_clicks by (simp add: centroid_y_rnd_def picks fl_values)
  note h5 = computed_angles_clicks
  from orderQuad_rnd_order_invariant[OF h1 h2 h3 h4 h5] h1 h2 h3 h4 h5
  show ?thesis by blast
qed

end
